theory Spec2Isabelle
  imports Complex_Main "HOL-Library.Word"
begin

unbundle bit_operations_syntax

section \<open>The Zwift Ride controller of app.py\<close>

text \<open>
  The model follows \<^verbatim>\<open>src/app.py\<close>: the decoder functions
  \<^verbatim>\<open>parse_button_state\<close>, \<^verbatim>\<open>parse_key_press\<close>, \<^verbatim>\<open>parse_key_group\<close>,
  \<^verbatim>\<open>parse_analog_message\<close>, the dispatcher \<^verbatim>\<open>trigger_keystrokes\<close> and the
  callback \<^verbatim>\<open>notification_handler\<close> of class \<^verbatim>\<open>ZwiftRideController\<close>.

  \<^item> A \<^verbatim>\<open>bytearray\<close> is a list of 8-bit words; what is read from it is turned into a
    Python integer (\<open>int\<close>) with \<open>uint\<close> before any arithmetic, as Python does.
  \<^item> An \<^verbatim>\<open>IndexError\<close> raised by \<^verbatim>\<open>buffer[offset]\<close> is the value \<open>Inl IndexError\<close>.
  \<^item> The calls \<^verbatim>\<open>keyboard.press(key)\<close> and \<^verbatim>\<open>keyboard.release(key)\<close> are recorded, in
    order, in a list of key actions that is passed along with the controller.
  \<^item> \<^verbatim>\<open>time.time()\<close> is the argument \<open>current_time\<close>. Times are of any type that has
    \<open>0\<close>, \<open>-\<close> and \<open>\<le>\<close>; nothing is assumed of these operations, so that every theorem
    holds for floating-point arithmetic as for exact arithmetic.
  \<^item> The order in which Python iterates over a set is not fixed by the language: it is
    the argument \<open>iter\<close>, a function from a set to the list of its elements.
  \<^item> The calls of \<^verbatim>\<open>keyboard\<close> are taken to return; logging and \<^verbatim>\<open>time.sleep\<close> are
    left out.
\<close>

subsection \<open>Data\<close>

type_synonym byte = "8 word"

type_synonym button = string

type_synonym key = string

datatype error = IndexError

datatype key_action = Press key | Release key

text \<open>The fields of \<^verbatim>\<open>ZwiftRideController\<close> that the dispatcher reads and writes.\<close>

record 't controller =
  key_mapping :: "button \<rightharpoonup> key"
  pressed_buttons :: "button set"
  last_press_time :: "button \<rightharpoonup> 't"
  repeat_delay :: 't
  active_keys :: "key set"

text \<open>The keyboard actions so far, and the controller.\<close>

type_synonym 't world = "key_action list \<times> 't controller"

text \<open>\<open>iterates iter S\<close>: \<open>iter\<close> lists the elements of \<open>S\<close>, each once.\<close>

definition iterates :: "('a set \<Rightarrow> 'a list) \<Rightarrow> 'a set \<Rightarrow> bool" where
  "iterates iter S = (set (iter S) = S \<and> distinct (iter S))"

text \<open>The dictionary \<^verbatim>\<open>BUTTON_MASKS\<close>, in insertion order.\<close>

definition BUTTON_MASKS :: "(button \<times> int) list" where
  "BUTTON_MASKS =
    [(''LEFT_BTN'', 0x1),
     (''UP_BTN'', 0x2),
     (''RIGHT_BTN'', 0x4),
     (''DOWN_BTN'', 0x8),
     (''A_BTN'', 0x10),
     (''B_BTN'', 0x20),
     (''Y_BTN'', 0x40),
     (''Z_BTN'', 0x100),
     (''SHFT_UP_L_BTN'', 0x200),
     (''SHFT_DN_L_BTN'', 0x400),
     (''POWERUP_L_BTN'', 0x800),
     (''ONOFF_L_BTN'', 0x1000),
     (''SHFT_UP_R_BTN'', 0x2000),
     (''SHFT_DN_R_BTN'', 0x4000),
     (''POWERUP_R_BTN'', 0x10000),
     (''ONOFF_R_BTN'', 0x20000)]"

text \<open>The dictionary \<^verbatim>\<open>DEFAULT_KEY_MAPPING\<close>.\<close>

definition DEFAULT_KEY_MAPPING :: "button \<rightharpoonup> key" where
  "DEFAULT_KEY_MAPPING = map_of
    [(''LEFT_BTN'', ''left''),
     (''UP_BTN'', ''up''),
     (''RIGHT_BTN'', ''right''),
     (''DOWN_BTN'', ''down''),
     (''A_BTN'', ''a''),
     (''B_BTN'', ''b''),
     (''Y_BTN'', ''y''),
     (''Z_BTN'', ''z''),
     (''SHFT_UP_L_BTN'', ''w''),
     (''SHFT_DN_L_BTN'', ''s''),
     (''POWERUP_L_BTN'', ''space''),
     (''ONOFF_L_BTN'', ''escape''),
     (''SHFT_UP_R_BTN'', ''page up''),
     (''SHFT_DN_R_BTN'', ''page down''),
     (''POWERUP_R_BTN'', ''p''),
     (''ONOFF_R_BTN'', ''enter'')]"

subsection \<open>The decoder\<close>

text \<open>
  \<^verbatim>\<open>parse_button_state\<close>: the buttons whose mask bit is 0 in \<open>button_map\<close>, in the order of
  the table.
\<close>

definition parse_button_state :: "int \<Rightarrow> button list" where
  "parse_button_state button_map =
     map fst (filter (\<lambda>(button, mask). button_map AND mask = 0) BUTTON_MASKS)"

text \<open>
  The zigzag decoding of \<^verbatim>\<open>parse_key_press\<close>:
  \<^verbatim>\<open>analog_value = (value >> 1) ^ (-(value & 1))\<close>.
\<close>

definition zigzag_decode :: "int \<Rightarrow> int" where
  "zigzag_decode raw = (drop_bit 1 raw) XOR (- (raw AND 1))"

text \<open>
  Modelled from the spec: the zigzag encoder, which the repository does not have. The spec
  calls it a bijective mapping of signed integers to unsigned ones that keeps values of
  small magnitude compact, with \<open>encode(0)=0, encode(-1)=1, encode(1)=2, encode(-2)=3\<close>.
\<close>

definition zigzag_encode :: "int \<Rightarrow> int" where
  "zigzag_encode v = (if 0 \<le> v then 2 * v else - 2 * v - 1)"

text \<open>
  The \<^verbatim>\<open>while True\<close> loop that \<^verbatim>\<open>parse_key_press\<close> runs for field 1 and again for
  field 2: it reads a varint at \<open>offset\<close> and returns the value and the offset behind it.
  \<^verbatim>\<open>buffer[offset]\<close> raises \<^verbatim>\<open>IndexError\<close> at the end of the buffer.
\<close>

function read_varint :: "byte list \<Rightarrow> nat \<Rightarrow> int \<Rightarrow> nat \<Rightarrow> error + (int \<times> nat)" where
  "read_varint buffer offset val shift =
     (if offset < length buffer then
        (let byte = uint (buffer ! offset);
             val' = val OR push_bit shift (byte AND 0x7f)
         in if byte AND 0x80 = 0 then Inr (val', offset + 1)
            else read_varint buffer (offset + 1) val' (shift + 7))
      else Inl IndexError)"
  by pat_completeness auto
termination
  by (relation "measure (\<lambda>(buffer, offset, val, shift). length buffer - offset)") auto

declare read_varint.simps [simp del]

text \<open>
  The skip of an unknown varint field in \<^verbatim>\<open>parse_key_press\<close>:
  \<^verbatim>\<open>while buffer[offset] & 0x80: offset += 1\<close>, then \<^verbatim>\<open>offset += 1\<close>. The read is not
  guarded.
\<close>

function skip_varint :: "byte list \<Rightarrow> nat \<Rightarrow> error + nat" where
  "skip_varint buffer offset =
     (if offset < length buffer then
        (if uint (buffer ! offset) AND 0x80 \<noteq> 0 then skip_varint buffer (offset + 1)
         else Inr (offset + 1))
      else Inl IndexError)"
  by pat_completeness auto
termination
  by (relation "measure (\<lambda>(buffer, offset). length buffer - offset)") auto

declare skip_varint.simps [simp del]

text \<open>
  The skip of an unknown varint field in \<^verbatim>\<open>parse_key_group\<close>:
  \<^verbatim>\<open>while offset < len(buffer) and buffer[offset] & 0x80: offset += 1\<close>, then
  \<^verbatim>\<open>if offset < len(buffer): offset += 1\<close>.
\<close>

function skip_varint_guarded :: "byte list \<Rightarrow> nat \<Rightarrow> nat" where
  "skip_varint_guarded buffer offset =
     (if offset < length buffer \<and> uint (buffer ! offset) AND 0x80 \<noteq> 0
      then skip_varint_guarded buffer (offset + 1)
      else if offset < length buffer then offset + 1 else offset)"
  by pat_completeness auto
termination
  by (relation "measure (\<lambda>(buffer, offset). length buffer - offset)") auto

declare skip_varint_guarded.simps [simp del]

lemma read_varint_offset:
  "read_varint buffer offset val shift = Inr (val', offset') \<Longrightarrow> offset < offset'"
proof (induction buffer offset val shift rule: read_varint.induct)
  case (1 buffer offset val shift)
  from "1.prems" have less: "offset < length buffer"
    by (subst (asm) read_varint.simps) (simp split: if_splits)
  show ?case
  proof (cases "uint (buffer ! offset) AND 0x80 = 0")
    case True
    with "1.prems" less show ?thesis
      by (subst (asm) read_varint.simps) (simp add: Let_def)
  next
    case False
    with "1.prems" less
    have "read_varint buffer (offset + 1)
            (val OR push_bit shift (uint (buffer ! offset) AND 0x7f)) (shift + 7)
          = Inr (val', offset')"
      by (subst (asm) read_varint.simps) (simp add: Let_def)
    with "1.IH" [OF less refl refl False] have "offset + 1 < offset'"
      by simp
    then show ?thesis by simp
  qed
qed

lemma skip_varint_offset: "skip_varint buffer offset = Inr offset' \<Longrightarrow> offset < offset'"
proof (induction buffer offset rule: skip_varint.induct)
  case (1 buffer offset)
  from "1.prems" have less: "offset < length buffer"
    by (subst (asm) skip_varint.simps) (simp split: if_splits)
  show ?case
  proof (cases "uint (buffer ! offset) AND 0x80 \<noteq> 0")
    case True
    with "1.prems" less have "skip_varint buffer (offset + 1) = Inr offset'"
      by (subst (asm) skip_varint.simps) simp
    with "1.IH" [OF less True] show ?thesis by simp
  next
    case False
    with "1.prems" less show ?thesis
      by (subst (asm) skip_varint.simps) simp
  qed
qed

lemma skip_varint_guarded_offset: "offset \<le> skip_varint_guarded buffer offset"
proof (induction buffer offset rule: skip_varint_guarded.induct)
  case (1 buffer offset)
  show ?case
  proof (cases "offset < length buffer \<and> uint (buffer ! offset) AND 0x80 \<noteq> 0")
    case True
    with "1.IH" have "offset + 1 \<le> skip_varint_guarded buffer (offset + 1)"
      by simp
    with True show ?thesis
      by (subst skip_varint_guarded.simps) simp
  next
    case False
    then show ?thesis
      by (subst skip_varint_guarded.simps) auto
  qed
qed

text \<open>The dictionary \<^verbatim>\<open>{"location": location, "value": analog_value}\<close>.\<close>

record key_press =
  location :: "int option"
  analog_value :: "int option"

text \<open>
  The loop \<^verbatim>\<open>while offset < len(buffer)\<close> of \<^verbatim>\<open>parse_key_press\<close>, with its local
  variables \<open>offset\<close>, \<open>location\<close> and \<open>analog_value\<close>. The length byte of an unknown
  length-delimited field is read without a guard.
\<close>

function parse_key_press_loop ::
  "byte list \<Rightarrow> nat \<Rightarrow> int option \<Rightarrow> int option \<Rightarrow> error + key_press" where
  "parse_key_press_loop buffer offset loc aval =
     (if offset < length buffer then
        (if drop_bit 3 (uint (buffer ! offset)) = 1 \<and> uint (buffer ! offset) AND 0x7 = 0 then
           (case read_varint buffer (offset + 1) 0 0 of
              Inl e \<Rightarrow> Inl e
            | Inr (val, offset') \<Rightarrow> parse_key_press_loop buffer offset' (Some val) aval)
         else if drop_bit 3 (uint (buffer ! offset)) = 2 \<and> uint (buffer ! offset) AND 0x7 = 0 then
           (case read_varint buffer (offset + 1) 0 0 of
              Inl e \<Rightarrow> Inl e
            | Inr (val, offset') \<Rightarrow>
                parse_key_press_loop buffer offset' loc (Some (zigzag_decode val)))
         else if uint (buffer ! offset) AND 0x7 = 0 then
           (case skip_varint buffer (offset + 1) of
              Inl e \<Rightarrow> Inl e
            | Inr offset' \<Rightarrow> parse_key_press_loop buffer offset' loc aval)
         else if uint (buffer ! offset) AND 0x7 = 2 then
           (if offset + 1 < length buffer
            then parse_key_press_loop buffer
                   (offset + 1 + (1 + unat (buffer ! (offset + 1)))) loc aval
            else Inl IndexError)
         else parse_key_press_loop buffer (offset + 1) loc aval)
      else Inr \<lparr>location = loc, analog_value = aval\<rparr>)"
  by pat_completeness auto
termination
proof (relation "measure (\<lambda>(buffer, offset, loc, aval). length buffer - offset)")
qed (auto dest!: read_varint_offset skip_varint_offset)

declare parse_key_press_loop.simps [simp del]

definition parse_key_press :: "byte list \<Rightarrow> error + key_press" where
  "parse_key_press buffer = parse_key_press_loop buffer 0 None None"

text \<open>
  The loop of \<^verbatim>\<open>parse_key_group\<close>, with its local variables \<open>offset\<close> and
  \<open>group_status\<close>, a dictionary from location to value (a value may be \<^verbatim>\<open>None\<close>). The
  length byte of a KeyPress field is read without a guard; the skips are guarded. The
  slice \<^verbatim>\<open>buffer[offset:offset + length]\<close> is \<open>take length (drop offset buffer)\<close>. An
  exception of \<^verbatim>\<open>parse_key_press\<close> is not caught here.
\<close>

function parse_key_group_loop ::
  "byte list \<Rightarrow> nat \<Rightarrow> (int \<rightharpoonup> int option) \<Rightarrow> error + (int \<rightharpoonup> int option)" where
  "parse_key_group_loop buffer offset group_status =
     (if offset < length buffer then
        (if drop_bit 3 (uint (buffer ! offset)) = 3 \<and> uint (buffer ! offset) AND 0x7 = 2 then
           (if offset + 1 < length buffer then
              (case parse_key_press
                      (take (unat (buffer ! (offset + 1))) (drop (offset + 1 + 1) buffer)) of
                 Inl e \<Rightarrow> Inl e
               | Inr res \<Rightarrow>
                   parse_key_group_loop buffer (offset + 1 + 1 + unat (buffer ! (offset + 1)))
                     (case location res of
                        None \<Rightarrow> group_status
                      | Some loc \<Rightarrow> group_status(loc \<mapsto> analog_value res)))
            else Inl IndexError)
         else if uint (buffer ! offset) AND 0x7 = 0 then
           parse_key_group_loop buffer (skip_varint_guarded buffer (offset + 1)) group_status
         else if uint (buffer ! offset) AND 0x7 = 2 then
           (if offset + 1 < length buffer
            then parse_key_group_loop buffer
                   (offset + 1 + (1 + unat (buffer ! (offset + 1)))) group_status
            else parse_key_group_loop buffer (offset + 1) group_status)
         else parse_key_group_loop buffer (offset + 1) group_status)
      else Inr group_status)"
  by pat_completeness auto
termination
proof (relation "measure (\<lambda>(buffer, offset, group_status). length buffer - offset)")
  fix buffer :: "byte list" and offset :: nat and group_status :: "int \<rightharpoonup> int option"
  assume "offset < length buffer"
  moreover have "offset + 1 \<le> skip_varint_guarded buffer (offset + 1)"
    by (rule skip_varint_guarded_offset)
  ultimately show "((buffer, skip_varint_guarded buffer (offset + 1), group_status),
      (buffer, offset, group_status))
    \<in> measure (\<lambda>(buffer, offset, group_status). length buffer - offset)"
    by simp
qed auto

declare parse_key_group_loop.simps [simp del]

definition parse_key_group :: "byte list \<Rightarrow> error + (int \<rightharpoonup> int option)" where
  "parse_key_group buffer = parse_key_group_loop buffer 0 Map.empty"

text \<open>
  The dictionary that \<^verbatim>\<open>parse_analog_message\<close> returns. \<^verbatim>\<open>res.get(0, 0)\<close> is the stored
  value, which may be \<^verbatim>\<open>None\<close>, or 0 where nothing is stored.
\<close>

record analog =
  left :: "int option"
  right :: "int option"
  next_index :: nat

definition parse_analog_message :: "byte list \<Rightarrow> error + analog option" where
  "parse_analog_message data =
     (if data = [] \<or> data ! 0 \<noteq> 0x1a then Inr None
      else
        (case parse_key_group data of
           Inl e \<Rightarrow> Inl e
         | Inr res \<Rightarrow>
             Inr (Some \<lparr>left = (case res 0 of None \<Rightarrow> Some 0 | Some v \<Rightarrow> v),
                        right = (case res 1 of None \<Rightarrow> Some 0 | Some v \<Rightarrow> v),
                        next_index = length data\<rparr>)))"

text \<open>
  The loop \<^verbatim>\<open>while start_index < len(data)\<close> of \<^verbatim>\<open>notification_handler\<close>. It can run
  forever: the result is \<open>None\<close> then, \<open>Some (Inl e)\<close> when a parse raises, and
  \<open>Some (Inr ())\<close> when the loop ends.
\<close>

partial_function (option) analog_loop :: "byte list \<Rightarrow> nat \<Rightarrow> (error + unit) option" where
  [code]: "analog_loop data start_index =
     (if start_index < length data then
        (case parse_analog_message (drop start_index data) of
           Inl e \<Rightarrow> Some (Inl e)
         | Inr None \<Rightarrow> Some (Inr ())
         | Inr (Some analog_data) \<Rightarrow> analog_loop data (next_index analog_data))
      else Some (Inr ()))"

subsection \<open>The dispatcher\<close>

text \<open>
  The body of the first loop of \<^verbatim>\<open>trigger_keystrokes\<close>, for one button that was
  pressed before and still is: a repeat when \<^verbatim>\<open>current_time - last_time >= self.repeat_delay\<close>.
\<close>

definition repeat_press :: "'t::{zero,minus,ord} \<Rightarrow> button \<Rightarrow> 't world \<Rightarrow> 't world" where
  "repeat_press current_time button = (\<lambda>(keyboard, self).
     case key_mapping self button of
       None \<Rightarrow> (keyboard, self)
     | Some key \<Rightarrow>
         if repeat_delay self
              \<le> current_time - (case last_press_time self button of None \<Rightarrow> 0 | Some t \<Rightarrow> t)
         then
           (let (keyboard1, self1) =
                  (if key \<in> active_keys self
                   then (keyboard @ [Release key],
                         self\<lparr>active_keys := active_keys self - {key}\<rparr>)
                   else (keyboard, self))
            in (keyboard1 @ [Press key],
                self1\<lparr>active_keys := insert key (active_keys self1),
                      last_press_time := (last_press_time self1)(button \<mapsto> current_time)\<rparr>))
         else (keyboard, self))"

text \<open>The body of the second loop, for one newly pressed button.\<close>

definition new_press :: "'t \<Rightarrow> button \<Rightarrow> 't world \<Rightarrow> 't world" where
  "new_press current_time button = (\<lambda>(keyboard, self).
     case key_mapping self button of
       None \<Rightarrow> (keyboard, self)
     | Some key \<Rightarrow>
         (keyboard @ [Press key],
          self\<lparr>active_keys := insert key (active_keys self),
               last_press_time := (last_press_time self)(button \<mapsto> current_time)\<rparr>))"

text \<open>The body of the third loop, for one released button.\<close>

definition release_button :: "button \<Rightarrow> 't world \<Rightarrow> 't world" where
  "release_button button = (\<lambda>(keyboard, self).
     case key_mapping self button of
       None \<Rightarrow> (keyboard, self)
     | Some key \<Rightarrow>
         (keyboard @ [Release key], self\<lparr>active_keys := active_keys self - {key}\<rparr>))"

text \<open>
  \<^verbatim>\<open>trigger_keystrokes\<close>: the three loops, each over a set that is computed when the loop
  starts, and the assignment to \<^verbatim>\<open>self.pressed_buttons\<close>.
\<close>

definition still_pressed_loop ::
  "(button set \<Rightarrow> button list) \<Rightarrow> 't::{zero,minus,ord} \<Rightarrow> button set \<Rightarrow> 't world \<Rightarrow> 't world" where
  "still_pressed_loop iter current_time current_buttons w =
     fold (repeat_press current_time) (iter (current_buttons \<inter> pressed_buttons (snd w))) w"

definition newly_pressed_loop ::
  "(button set \<Rightarrow> button list) \<Rightarrow> 't \<Rightarrow> button set \<Rightarrow> 't world \<Rightarrow> 't world" where
  "newly_pressed_loop iter current_time current_buttons w =
     fold (new_press current_time) (iter (current_buttons - pressed_buttons (snd w))) w"

definition released_loop ::
  "(button set \<Rightarrow> button list) \<Rightarrow> button set \<Rightarrow> 't world \<Rightarrow> 't world" where
  "released_loop iter current_buttons w =
     fold release_button (iter (pressed_buttons (snd w) - current_buttons)) w"

definition trigger_keystrokes ::
  "(button set \<Rightarrow> button list) \<Rightarrow> 't::{zero,minus,ord} \<Rightarrow> button list \<Rightarrow> 't world \<Rightarrow> 't world" where
  "trigger_keystrokes iter current_time buttons w =
     (let current_buttons = set buttons;
          w1 = still_pressed_loop iter current_time current_buttons w;
          w2 = newly_pressed_loop iter current_time current_buttons w1;
          w3 = released_loop iter current_buttons w2
      in (fst w3, (snd w3)\<lparr>pressed_buttons := current_buttons\<rparr>))"

subsection \<open>The notification handler\<close>

text \<open>
  \<^verbatim>\<open>button_map = data[2] | (data[3] << 8) | (data[4] << 16) | (data[5] << 24)\<close>
\<close>

definition button_map_of :: "byte list \<Rightarrow> int" where
  "button_map_of data =
     uint (data ! 2) OR push_bit 8 (uint (data ! 3)) OR push_bit 16 (uint (data ! 4))
       OR push_bit 24 (uint (data ! 5))"

text \<open>
  The \<^verbatim>\<open>try\<close> block of \<^verbatim>\<open>notification_handler\<close>. The result is \<open>None\<close> when the block
  never ends (what it did before is then not reported); otherwise it is the keyboard
  and the controller as the block leaves them, with \<open>Inl e\<close> when it leaves them by
  raising \<open>e\<close>. \<^verbatim>\<open>data[0]\<close> raises on an empty
  payload and \<^verbatim>\<open>data[5]\<close> on one of fewer than 6 bytes, before anything is changed.
\<close>

definition notification_body ::
  "(string set \<Rightarrow> string list) \<Rightarrow> 't::{zero,minus,ord} \<Rightarrow> byte list \<Rightarrow> 't world
     \<Rightarrow> ('t world \<times> (error + unit)) option" where
  "notification_body iter current_time data w =
     (if data = [] then Some (w, Inl IndexError)
      else if data ! 0 = 0x23 then
        (if length data < 6 then Some (w, Inl IndexError)
         else
           (let pressed = parse_button_state (button_map_of data);
                w' = (if pressed \<noteq> [] then trigger_keystrokes iter current_time pressed w
                      else w)
            in map_option (Pair w') (analog_loop data 7)))
      else if data ! 0 = 0x2a then Some (w, Inr ())
      else if data ! 0 = 0x15 then
        (if active_keys (snd w) \<noteq> {}
         then Some ((fst w @ map Release (iter (active_keys (snd w))),
                     (snd w)\<lparr>active_keys := {}, pressed_buttons := {}\<rparr>), Inr ())
         else Some (w, Inr ()))
      else if data ! 0 = 0x19 then Some (w, Inr ())
      else Some (w, Inr ()))"

text \<open>
  \<^verbatim>\<open>notification_handler\<close>: the \<^verbatim>\<open>except Exception\<close> clause logs the exception and the
  handler returns.
\<close>

definition notification_handler ::
  "(string set \<Rightarrow> string list) \<Rightarrow> 't::{zero,minus,ord} \<Rightarrow> byte list \<Rightarrow> 't world
     \<Rightarrow> 't world option" where
  "notification_handler iter current_time data w =
     map_option fst (notification_body iter current_time data w)"

text \<open>
  The transport calls the handler once for each notification, in order; a notification
  is given with the time at which it is handled and with the order in which that call
  iterates over its sets (Python may iterate over equal sets in different orders, so
  each call has an order of its own). The result is \<open>None\<close> when a call never returns.
\<close>

fun notifications ::
  "((string set \<Rightarrow> string list) \<times> 't::{zero,minus,ord} \<times> byte list) list \<Rightarrow> 't world
     \<Rightarrow> 't world option" where
  "notifications [] w = Some w"
| "notifications ((iter, current_time, data) # rest) w =
     (case notification_handler iter current_time data w of
        None \<Rightarrow> None
      | Some w' \<Rightarrow> notifications rest w')"

subsection \<open>Notions used in the statements\<close>

text \<open>The key that a keyboard action presses or releases.\<close>

fun key_of :: "key_action \<Rightarrow> key" where
  "key_of (Press k) = k"
| "key_of (Release k) = k"


text \<open>
  \<open>iter\<close> lists each of the three sets that the loops of \<^verbatim>\<open>trigger_keystrokes\<close> run
  over, for the buttons \<open>current\<close> of the update and the buttons \<open>previous\<close> pressed
  before it.
\<close>

definition iterates_update :: "(button set \<Rightarrow> button list) \<Rightarrow> button set \<Rightarrow> button set \<Rightarrow> bool" where
  "iterates_update iter current previous =
     (iterates iter (current \<inter> previous) \<and> iterates iter (current - previous)
      \<and> iterates iter (previous - current))"


text \<open>
  What \<^verbatim>\<open>notification_handler\<close> dispatches for a ButtonStatus frame before it turns
  to the analog data: \<^verbatim>\<open>trigger_keystrokes\<close> is called only when a button is pressed.
\<close>

definition dispatched ::
  "(string set \<Rightarrow> string list) \<Rightarrow> 't::{zero,minus,ord} \<Rightarrow> byte list \<Rightarrow> 't world \<Rightarrow> 't world" where
  "dispatched iter current_time data w =
     (if parse_button_state (button_map_of data) \<noteq> []
      then trigger_keystrokes iter current_time (parse_button_state (button_map_of data)) w
      else w)"

text \<open>
  \<open>release_after_press k actions\<close>: somewhere in \<open>actions\<close>, a \<open>Release k\<close> stands after
  a \<open>Press k\<close>.
\<close>

fun release_after_press :: "key \<Rightarrow> key_action list \<Rightarrow> bool" where
  "release_after_press k [] = False"
| "release_after_press k (a # as) =
     ((a = Press k \<and> Release k \<in> set as) \<or> release_after_press k as)"

subsection \<open>Examples\<close>

text \<open>
  An iteration order for the examples: the elements of the set that are in the list
  \<open>xs\<close>, in the order of \<open>xs\<close>.
\<close>

definition in_order_of :: "'a list \<Rightarrow> 'a set \<Rightarrow> 'a list" where
  "in_order_of xs S = filter (\<lambda>x. x \<in> S) xs"

text \<open>
  An iteration order for the examples: the table's order for buttons, then some keys.
\<close>

definition example_iter :: "string set \<Rightarrow> string list" where
  "example_iter = in_order_of (map fst BUTTON_MASKS @ [''a'', ''b'', ''up'', ''w'', ''space''])"

text \<open>
  The controller as \<^verbatim>\<open>__init__\<close> makes it, with the mapping that \<^verbatim>\<open>load_key_mapping\<close>
  stores; its \<^verbatim>\<open>repeat_delay\<close> 0.2 is taken as a real number.
\<close>

definition init :: "(button \<rightharpoonup> key) \<Rightarrow> real controller" where
  "init mapping =
     \<lparr>key_mapping = mapping, pressed_buttons = {}, last_press_time = Map.empty,
      repeat_delay = 2 / 10, active_keys = {}\<rparr>"


text \<open>
  A controller whose mapping has no entry for \<^verbatim>\<open>Y_BTN\<close>, with \<^verbatim>\<open>B_BTN\<close> and
  \<^verbatim>\<open>Y_BTN\<close> pressed.
\<close>

definition ab_controller :: "real controller" where
  "ab_controller =
     \<lparr>key_mapping = [''A_BTN'' \<mapsto> ''a'', ''B_BTN'' \<mapsto> ''b''],
      pressed_buttons = {''B_BTN'', ''Y_BTN''},
      last_press_time = [''B_BTN'' \<mapsto> 1],
      repeat_delay = 0.2,
      active_keys = {''b''}\<rparr>"

text \<open>
  A controller with \<^verbatim>\<open>A_BTN\<close> and \<^verbatim>\<open>B_BTN\<close> pressed and their keys held.
\<close>

definition ab_held :: "real controller" where
  "ab_held =
     \<lparr>key_mapping = [''A_BTN'' \<mapsto> ''a'', ''B_BTN'' \<mapsto> ''b''],
      pressed_buttons = {''A_BTN'', ''B_BTN''},
      last_press_time = [''A_BTN'' \<mapsto> 1, ''B_BTN'' \<mapsto> 1],
      repeat_delay = 2 / 10,
      active_keys = {''a'', ''b''}\<rparr>"

text \<open>
  The default controller with the buttons of the keys \<^verbatim>\<open>w\<close> and \<^verbatim>\<open>space\<close> pressed
  and both keys held.
\<close>

definition w_space_held :: "real controller" where
  "w_space_held =
     \<lparr>key_mapping = DEFAULT_KEY_MAPPING,
      pressed_buttons = {''SHFT_UP_L_BTN'', ''POWERUP_L_BTN''},
      last_press_time = [''SHFT_UP_L_BTN'' \<mapsto> 1, ''POWERUP_L_BTN'' \<mapsto> 1],
      repeat_delay = 2 / 10,
      active_keys = {''w'', ''space''}\<rparr>"

text \<open>
  ButtonStatus frames without analog data: one with every mask bit set (no button
  pressed), one with the bit of \<^verbatim>\<open>Y_BTN\<close> cleared. An Idle frame.
\<close>

definition all_released_frame :: "byte list" where
  "all_released_frame = [0x23, 0x08, 0xFF, 0xFF, 0xFF, 0xFF, 0x0F]"

definition y_frame :: "byte list" where
  "y_frame = [0x23, 0x08, 0xBF, 0xFF, 0xFF, 0xFF, 0x0F]"

definition idle_frame :: "byte list" where
  "idle_frame = [0x15]"

text \<open>
  A ButtonStatus frame with \<^verbatim>\<open>A_BTN\<close> pressed and an analog sub-message whose KeyPress
  has a location varint \<^verbatim>\<open>0x80\<close> that does not end within its two bytes.
\<close>

definition truncated_varint_frame :: "byte list" where
  "truncated_varint_frame = [0x23, 0x08, 0xEF, 0xFF, 0xFF, 0xFF, 0x0F, 0x1a, 0x02, 0x08, 0x80]"

text \<open>
  A ButtonStatus frame with \<^verbatim>\<open>POWERUP_R_BTN\<close> pressed and, from index 7, an analog
  sub-message with an empty KeyPress and then an unknown varint field \<^verbatim>\<open>08 80\<close> whose
  varint does not end within the frame.
\<close>

definition group_varint_frame :: "byte list" where
  "group_varint_frame = [0x23, 0x08, 0xFF, 0xFF, 0x1a, 0x03, 0x0F, 0x1a, 0x00, 0x08, 0x80]"

text \<open>
  A ButtonStatus frame of 31 bytes with four well-formed KeyPress sub-messages, for the
  locations 0 to 3; the value byte of location 2 is \<^verbatim>\<open>0x1a\<close> (the zigzag encoding of 13)
  and stands at index 24.
\<close>

definition looping_frame :: "byte list" where
  "looping_frame =
     [0x23, 0x08, 0xFF, 0xFF, 0xFF, 0xFF, 0x0F,
      0x1a, 0x04, 0x08, 0x00, 0x10, 0x00,
      0x1a, 0x04, 0x08, 0x01, 0x10, 0x00,
      0x1a, 0x04, 0x08, 0x02, 0x10, 0x1a,
      0x1a, 0x04, 0x08, 0x03, 0x10, 0x00]"

text \<open>
  A controller whose mapping gives \<^verbatim>\<open>A_BTN\<close> and \<^verbatim>\<open>B_BTN\<close> the same key, with
  \<^verbatim>\<open>A_BTN\<close> pressed.
\<close>

definition shared_key :: "real controller" where
  "shared_key =
     \<lparr>key_mapping = [''A_BTN'' \<mapsto> ''a'', ''B_BTN'' \<mapsto> ''a''],
      pressed_buttons = {''A_BTN''},
      last_press_time = [''A_BTN'' \<mapsto> 1],
      repeat_delay = 2 / 10,
      active_keys = {''a''}\<rparr>"


section \<open>Properties\<close>

subsection \<open>The loops of the dispatcher\<close>

lemma repeat_press_unmapped:
  "key_mapping (snd w) b = None \<Longrightarrow> repeat_press t b w = w"
  by (cases w) (simp add: repeat_press_def)

lemma new_press_unmapped:
  "key_mapping (snd w) b = None \<Longrightarrow> new_press t b w = w"
  by (cases w) (simp add: new_press_def)

lemma release_button_unmapped:
  "key_mapping (snd w) b = None \<Longrightarrow> release_button b w = w"
  by (cases w) (simp add: release_button_def)

lemma repeat_press_frame:
  "key_mapping (snd (repeat_press t b w)) = key_mapping (snd w)"
  "pressed_buttons (snd (repeat_press t b w)) = pressed_buttons (snd w)"
  "repeat_delay (snd (repeat_press t b w)) = repeat_delay (snd w)"
  by (cases w; simp add: repeat_press_def Let_def split: option.split)+

lemma new_press_frame:
  "key_mapping (snd (new_press t b w)) = key_mapping (snd w)"
  "pressed_buttons (snd (new_press t b w)) = pressed_buttons (snd w)"
  "repeat_delay (snd (new_press t b w)) = repeat_delay (snd w)"
  by (cases w; simp add: new_press_def split: option.split)+

lemma release_button_frame:
  "key_mapping (snd (release_button b w)) = key_mapping (snd w)"
  "pressed_buttons (snd (release_button b w)) = pressed_buttons (snd w)"
  "repeat_delay (snd (release_button b w)) = repeat_delay (snd w)"
  "last_press_time (snd (release_button b w)) = last_press_time (snd w)"
  by (cases w; simp add: release_button_def split: option.split)+

lemma fold_frame:
  assumes "\<And>b w. g (snd (f b w)) = g (snd w)"
  shows "g (snd (fold f bs w)) = g (snd w)"
  using assms by (induction bs arbitrary: w) simp_all

lemma fold_unmapped:
  assumes same: "\<And>b w. key_mapping (snd (f b w)) = key_mapping (snd w)"
    and skip: "\<And>w. key_mapping (snd w) b = None \<Longrightarrow> f b w = w"
    and un: "key_mapping (snd w) b = None"
  shows "fold f (removeAll b bs) w = fold f bs w"
  using un
proof (induction bs arbitrary: w)
  case Nil
  then show ?case by simp
next
  case (Cons a bs)
  show ?case
  proof (cases "a = b")
    case True
    with Cons show ?thesis by (simp add: skip)
  next
    case False
    from Cons.prems have "key_mapping (snd (f a w)) b = None" by (simp add: same)
    with Cons.IH False show ?thesis by simp
  qed
qed

lemma repeat_press_time_other:
  "a \<noteq> b \<Longrightarrow> last_press_time (snd (repeat_press t a w)) b = last_press_time (snd w) b"
  by (cases w) (simp add: repeat_press_def Let_def split: option.split)

lemma new_press_time_other:
  "a \<noteq> b \<Longrightarrow> last_press_time (snd (new_press t a w)) b = last_press_time (snd w) b"
  by (cases w) (simp add: new_press_def split: option.split)

lemma fold_time_other:
  assumes "\<And>a w. a \<noteq> b \<Longrightarrow> last_press_time (snd (f a w)) b = last_press_time (snd w) b"
    and "b \<notin> set bs"
  shows "last_press_time (snd (fold f bs w)) b = last_press_time (snd w) b"
  using assms(2) by (induction bs arbitrary: w) (auto simp: assms(1))

lemma repeat_press_emits:
  "\<exists>out. fst (repeat_press t b w) = fst w @ out
     \<and> (\<forall>a\<in>set out. key_mapping (snd w) b = Some (key_of a))"
  by (cases w) (simp add: repeat_press_def Let_def split: option.split)

lemma new_press_emits:
  "\<exists>out. fst (new_press t b w) = fst w @ out
     \<and> (\<forall>a\<in>set out. key_mapping (snd w) b = Some (key_of a))"
  by (cases w) (simp add: new_press_def split: option.split)

lemma release_button_emits:
  "\<exists>out. fst (release_button b w) = fst w @ out
     \<and> (\<forall>a\<in>set out. key_mapping (snd w) b = Some (key_of a))"
  by (cases w) (simp add: release_button_def split: option.split)

lemma fold_emits:
  assumes step: "\<And>b w. \<exists>out. fst (f b w) = fst w @ out
      \<and> (\<forall>a\<in>set out. key_mapping (snd w) b = Some (key_of a))"
    and same: "\<And>b w. key_mapping (snd (f b w)) = key_mapping (snd w)"
  shows "\<exists>out. fst (fold f bs w) = fst w @ out
      \<and> (\<forall>a\<in>set out. \<exists>b\<in>set bs. key_mapping (snd w) b = Some (key_of a))"
proof (induction bs arbitrary: w)
  case Nil
  then show ?case by simp
next
  case (Cons b bs)
  from step [of b w] obtain o1 where o1: "fst (f b w) = fst w @ o1"
    "\<forall>a\<in>set o1. key_mapping (snd w) b = Some (key_of a)" by blast
  from Cons.IH [of "f b w"] obtain o2 where o2: "fst (fold f bs (f b w)) = fst (f b w) @ o2"
    "\<forall>a\<in>set o2. \<exists>b'\<in>set bs. key_mapping (snd (f b w)) b' = Some (key_of a)" by blast
  have "fst (fold f (b # bs) w) = fst w @ (o1 @ o2)"
    using o1(1) o2(1) by simp
  moreover have "\<forall>a\<in>set (o1 @ o2). \<exists>b'\<in>set (b # bs). key_mapping (snd w) b' = Some (key_of a)"
    using o1(2) o2(2) by (auto simp: same)
  ultimately show ?case by blast
qed

lemma still_pressed_loop_frame:
  "key_mapping (snd (still_pressed_loop iter t cur w)) = key_mapping (snd w)"
  "pressed_buttons (snd (still_pressed_loop iter t cur w)) = pressed_buttons (snd w)"
  "repeat_delay (snd (still_pressed_loop iter t cur w)) = repeat_delay (snd w)"
  by (simp_all add: still_pressed_loop_def fold_frame repeat_press_frame)

lemma newly_pressed_loop_frame:
  "key_mapping (snd (newly_pressed_loop iter t cur w)) = key_mapping (snd w)"
  "pressed_buttons (snd (newly_pressed_loop iter t cur w)) = pressed_buttons (snd w)"
  "repeat_delay (snd (newly_pressed_loop iter t cur w)) = repeat_delay (snd w)"
  by (simp_all add: newly_pressed_loop_def fold_frame new_press_frame)

lemma released_loop_frame:
  "key_mapping (snd (released_loop iter cur w)) = key_mapping (snd w)"
  "pressed_buttons (snd (released_loop iter cur w)) = pressed_buttons (snd w)"
  "repeat_delay (snd (released_loop iter cur w)) = repeat_delay (snd w)"
  "last_press_time (snd (released_loop iter cur w)) = last_press_time (snd w)"
  by (simp_all add: released_loop_def fold_frame release_button_frame)

lemma trigger_keystrokes_skip:
  assumes "key_mapping (snd w) b = None"
  shows "trigger_keystrokes (\<lambda>S. removeAll b (iter S)) t buttons w
         = trigger_keystrokes iter t buttons w"
proof -
  let ?it = "\<lambda>S. removeAll b (iter S)"
  let ?cur = "set buttons"
  have 1: "still_pressed_loop ?it t ?cur w = still_pressed_loop iter t ?cur w"
    unfolding still_pressed_loop_def
    by (rule fold_unmapped [OF repeat_press_frame(1) repeat_press_unmapped assms])
  let ?w1 = "still_pressed_loop iter t ?cur w"
  have k1: "key_mapping (snd ?w1) b = None"
    using assms by (simp add: still_pressed_loop_frame)
  have 2: "newly_pressed_loop ?it t ?cur ?w1 = newly_pressed_loop iter t ?cur ?w1"
    unfolding newly_pressed_loop_def
    by (rule fold_unmapped [OF new_press_frame(1) new_press_unmapped k1])
  let ?w2 = "newly_pressed_loop iter t ?cur ?w1"
  have k2: "key_mapping (snd ?w2) b = None"
    using k1 by (simp add: newly_pressed_loop_frame)
  have 3: "released_loop ?it ?cur ?w2 = released_loop iter ?cur ?w2"
    unfolding released_loop_def
    by (rule fold_unmapped [OF release_button_frame(1) release_button_unmapped k2])
  show ?thesis
    by (simp add: trigger_keystrokes_def Let_def 1 2 3)
qed

lemma trigger_keystrokes_emits:
  assumes it: "iterates_update iter (set buttons) (pressed_buttons (snd w))"
  shows "\<exists>out. fst (trigger_keystrokes iter t buttons w) = fst w @ out
      \<and> (\<forall>a\<in>set out. \<exists>b\<in>set buttons \<union> pressed_buttons (snd w).
            key_mapping (snd w) b = Some (key_of a))"
proof -
  let ?cur = "set buttons" and ?prev = "pressed_buttons (snd w)"
  let ?w1 = "still_pressed_loop iter t ?cur w"
  let ?w2 = "newly_pressed_loop iter t ?cur ?w1"
  let ?w3 = "released_loop iter ?cur ?w2"
  from it have sets: "set (iter (?cur \<inter> ?prev)) = ?cur \<inter> ?prev"
    "set (iter (?cur - ?prev)) = ?cur - ?prev" "set (iter (?prev - ?cur)) = ?prev - ?cur"
    by (simp_all add: iterates_update_def iterates_def)
  from fold_emits [where f = "repeat_press t" and bs = "iter (?cur \<inter> ?prev)" and w = w,
      OF repeat_press_emits repeat_press_frame(1)]
  obtain o1 where o1: "fst ?w1 = fst w @ o1"
    "\<forall>a\<in>set o1. \<exists>b\<in>?cur \<inter> ?prev. key_mapping (snd w) b = Some (key_of a)"
    unfolding still_pressed_loop_def sets by blast
  from fold_emits [where f = "new_press t" and bs = "iter (?cur - ?prev)" and w = ?w1,
      OF new_press_emits new_press_frame(1)]
  obtain o2 where o2: "fst ?w2 = fst ?w1 @ o2"
    "\<forall>a\<in>set o2. \<exists>b\<in>?cur - ?prev. key_mapping (snd w) b = Some (key_of a)"
    unfolding newly_pressed_loop_def sets still_pressed_loop_frame by blast
  from fold_emits [where f = release_button and bs = "iter (?prev - ?cur)" and w = ?w2,
      OF release_button_emits release_button_frame(1)]
  obtain o3 where o3: "fst ?w3 = fst ?w2 @ o3"
    "\<forall>a\<in>set o3. \<exists>b\<in>?prev - ?cur. key_mapping (snd w) b = Some (key_of a)"
    unfolding released_loop_def sets still_pressed_loop_frame newly_pressed_loop_frame by blast
  have "fst (trigger_keystrokes iter t buttons w) = fst w @ (o1 @ o2 @ o3)"
    using o1(1) o2(1) o3(1) by (simp add: trigger_keystrokes_def Let_def)
  moreover have "\<forall>a\<in>set (o1 @ o2 @ o3). \<exists>b\<in>?cur \<union> ?prev.
      key_mapping (snd w) b = Some (key_of a)"
    using o1(2) o2(2) o3(2) by auto
  ultimately show ?thesis by blast
qed


lemma release_after_press_append:
  "release_after_press k (xs @ ys)
   = (release_after_press k xs \<or> release_after_press k ys
      \<or> (Press k \<in> set xs \<and> Release k \<in> set ys))"
  by (induction xs) auto

lemma repeat_press_order:
  "\<not> release_after_press k (drop (length (fst w)) (fst (repeat_press t b w)))"
  by (cases w) (simp add: repeat_press_def Let_def split: option.split)

lemma new_press_order:
  "\<not> release_after_press k (drop (length (fst w)) (fst (new_press t b w)))"
  by (cases w) (simp add: new_press_def split: option.split)

lemma release_button_order:
  "\<not> release_after_press k (drop (length (fst w)) (fst (release_button b w)))"
  by (cases w) (simp add: release_button_def split: option.split)

lemma fold_order:
  assumes step: "\<And>b w. \<exists>out. fst (f b w) = fst w @ out
      \<and> (\<forall>a\<in>set out. key_mapping (snd w) b = Some (key_of a))"
    and order: "\<And>b w k. \<not> release_after_press k (drop (length (fst w)) (fst (f b w)))"
    and same: "\<And>b w. key_mapping (snd (f b w)) = key_mapping (snd w)"
    and dist: "distinct bs"
    and inj: "inj_on (key_mapping (snd w)) (set bs \<inter> dom (key_mapping (snd w)))"
  shows "\<not> release_after_press k (drop (length (fst w)) (fst (fold f bs w)))"
  using dist inj
proof (induction bs arbitrary: w)
  case Nil
  then show ?case by simp
next
  case (Cons b bs)
  from step [of b w] obtain o1 where o1: "fst (f b w) = fst w @ o1"
    "\<forall>a\<in>set o1. key_mapping (snd w) b = Some (key_of a)" by blast
  from fold_emits [of f bs "f b w", OF step same]
  obtain o2 where o2: "fst (fold f bs (f b w)) = fst (f b w) @ o2"
    "\<forall>a\<in>set o2. \<exists>b'\<in>set bs. key_mapping (snd w) b' = Some (key_of a)"
    by (auto simp: same)
  have inj': "inj_on (key_mapping (snd (f b w))) (set bs \<inter> dom (key_mapping (snd (f b w))))"
    using Cons.prems(2) by (simp add: same inj_on_def)
  from Cons.IH [of "f b w"] Cons.prems(1) inj'
  have "\<not> release_after_press k (drop (length (fst (f b w))) (fst (fold f bs (f b w))))"
    by simp
  then have r2: "\<not> release_after_press k o2" by (simp add: o2(1))
  from order [of k w b] have r1: "\<not> release_after_press k o1" by (simp add: o1(1))
  have cross: "\<not> (Press k \<in> set o1 \<and> Release k \<in> set o2)"
  proof
    assume c: "Press k \<in> set o1 \<and> Release k \<in> set o2"
    with o1(2) have kb: "key_mapping (snd w) b = Some k" by force
    from c o2(2) obtain b' where b': "b' \<in> set bs" "key_mapping (snd w) b' = Some k" by force
    from Cons.prems(2) kb b' have "b' = b"
      by (auto simp: inj_on_def dom_def)
    with b'(1) Cons.prems(1) show False by simp
  qed
  have "drop (length (fst w)) (fst (fold f (b # bs) w)) = o1 @ o2"
    by (simp add: o1(1) o2(1))
  with r1 r2 cross show ?case
    by (simp add: release_after_press_append)
qed




subsection \<open>Buttons and bits\<close>

lemma distinct_filter_fst:
  "distinct (map fst xs) \<Longrightarrow> (b, m) \<in> set xs
     \<Longrightarrow> (b \<in> set (map fst (filter P xs))) = P (b, m)"
  by (induction xs) (auto simp: rev_image_eqI)

lemma distinct_BUTTON_MASKS: "distinct (map fst BUTTON_MASKS)"
  by (simp add: BUTTON_MASKS_def)


text \<open>
  Claim C4: for every bitmask \<open>m\<close> and every button \<open>b\<close> of the 16 of \<^verbatim>\<open>BUTTON_MASKS\<close>,
  with mask \<open>mask\<close>, \<^verbatim>\<open>parse_button_state\<close> reports \<open>b\<close> as pressed if and only if
  \<open>m AND mask = 0\<close>; and \<open>m = 0xFFFFFFFE\<close> yields exactly \<^verbatim>\<open>LEFT_BTN\<close>. The bitmask is a
  Python integer, so the statement holds for every integer, those of 32 bits among them.
\<close>

theorem bit_inversion:
  "(\<forall>(b, mask)\<in>set BUTTON_MASKS. (b \<in> set (parse_button_state m)) = (m AND mask = 0))
   \<and> parse_button_state 0xFFFFFFFE = [''LEFT_BTN'']"
proof
  show "\<forall>(b, mask)\<in>set BUTTON_MASKS. (b \<in> set (parse_button_state m)) = (m AND mask = 0)"
    unfolding parse_button_state_def
    using distinct_filter_fst [OF distinct_BUTTON_MASKS,
        where P = "\<lambda>(button, mask). m AND mask = 0"]
    by auto
  show "parse_button_state 0xFFFFFFFE = [''LEFT_BTN'']"
    by (simp add: parse_button_state_def BUTTON_MASKS_def)
qed

theorem bit_inversion_witness:
  "(''LEFT_BTN'', 0x1) \<in> set BUTTON_MASKS
   \<and> (''LEFT_BTN'' \<in> set (parse_button_state 0xFFFFFFFE)) = ((0xFFFFFFFE::int) AND 0x1 = 0)
   \<and> (''UP_BTN'', 0x2) \<in> set BUTTON_MASKS
   \<and> (''UP_BTN'' \<in> set (parse_button_state 0xFFFFFFFE)) = ((0xFFFFFFFE::int) AND 0x2 = 0)
   \<and> (0xFFFFFFFE::int) AND 0x1 = 0 \<and> (0xFFFFFFFE::int) AND 0x2 \<noteq> 0"
proof -
  have l: "(''LEFT_BTN'', 0x1) \<in> set BUTTON_MASKS" and u: "(''UP_BTN'', 0x2) \<in> set BUTTON_MASKS"
    by (simp_all add: BUTTON_MASKS_def)
  from bit_inversion [of "0xFFFFFFFE"]
  have all: "\<forall>(b, mask)\<in>set BUTTON_MASKS.
      (b \<in> set (parse_button_state 0xFFFFFFFE)) = (0xFFFFFFFE AND mask = 0)"
    by (rule conjunct1)
  from bspec [OF all l] bspec [OF all u] l u show ?thesis
    by simp
qed


subsection \<open>Zigzag\<close>

text \<open>
  Claim C8: decoding, with the decoder's formula \<open>(raw >> 1) ^ -(raw & 1)\<close>, the zigzag
  encoding of \<open>v\<close> yields \<open>v\<close>, for every integer \<open>v\<close> and so for every signed 32-bit one;
  the encoding maps 0 to 0, -1 to 1, 1 to 2 and -2 to 3. The encoder is the one modelled
  from the spec.
\<close>

theorem zigzag_round_trip:
  "zigzag_decode (zigzag_encode v) = v
   \<and> zigzag_encode 0 = 0 \<and> zigzag_encode (- 1) = 1
   \<and> zigzag_encode 1 = 2 \<and> zigzag_encode (- 2) = 3"
proof -
  have "zigzag_decode (zigzag_encode v) = v"
  proof (cases "0 \<le> v")
    case True
    then show ?thesis
      by (simp add: zigzag_decode_def zigzag_encode_def drop_bit_eq_div and_one_eq)
  next
    case False
    have "(- 2 * v - 1) div 2 = - v - 1" by simp
    moreover have "(- 2 * v - 1) mod 2 = 1" by presburger
    moreover have "(- v - 1) XOR (- 1) = v"
      by (simp add: not_eq_complement)
    ultimately show ?thesis using False
      by (simp add: zigzag_decode_def zigzag_encode_def drop_bit_eq_div and_one_eq)
  qed
  then show ?thesis by (simp add: zigzag_encode_def)
qed

subsection \<open>Unmapped buttons\<close>

text \<open>
  Claim C9: for every dispatch update and every button \<open>b\<close> that has no entry in the key
  mapping: leaving \<open>b\<close> out of each of the three loops changes neither the emitted actions
  nor the resulting controller, so nothing is emitted and neither the active keys nor the
  timestamps are modified on account of \<open>b\<close>; every emitted action is on the key of a
  mapped button, other than \<open>b\<close>, of the update; the timestamp of \<open>b\<close> is unchanged; and the
  pressed buttons become the buttons of the update, \<open>b\<close> among them when it is pressed.
\<close>

theorem unmapped_button_ignored:
  assumes un: "key_mapping (snd w) b = None"
    and it: "iterates_update iter (set buttons) (pressed_buttons (snd w))"
  shows "trigger_keystrokes (\<lambda>S. removeAll b (iter S)) t buttons w
           = trigger_keystrokes iter t buttons w
       \<and> (\<forall>a\<in>set (drop (length (fst w)) (fst (trigger_keystrokes iter t buttons w))).
            \<exists>b'\<in>set buttons \<union> pressed_buttons (snd w).
              b' \<noteq> b \<and> key_mapping (snd w) b' = Some (key_of a))
       \<and> last_press_time (snd (trigger_keystrokes iter t buttons w)) b
           = last_press_time (snd w) b
       \<and> pressed_buttons (snd (trigger_keystrokes iter t buttons w)) = set buttons"
proof (intro conjI)
  let ?it = "\<lambda>S. removeAll b (iter S)"
  show skip: "trigger_keystrokes ?it t buttons w = trigger_keystrokes iter t buttons w"
    by (rule trigger_keystrokes_skip [OF un])
  from trigger_keystrokes_emits [OF it, of t]
  obtain out where out: "fst (trigger_keystrokes iter t buttons w) = fst w @ out"
    "\<forall>a\<in>set out. \<exists>b'\<in>set buttons \<union> pressed_buttons (snd w).
        key_mapping (snd w) b' = Some (key_of a)" by blast
  have "\<forall>a\<in>set out. \<exists>b'\<in>set buttons \<union> pressed_buttons (snd w).
        b' \<noteq> b \<and> key_mapping (snd w) b' = Some (key_of a)"
  proof
    fix a assume "a \<in> set out"
    with out(2) obtain b' where b': "b' \<in> set buttons \<union> pressed_buttons (snd w)"
      "key_mapping (snd w) b' = Some (key_of a)" by blast
    from b'(2) un have "b' \<noteq> b" by auto
    with b' show "\<exists>b'\<in>set buttons \<union> pressed_buttons (snd w).
        b' \<noteq> b \<and> key_mapping (snd w) b' = Some (key_of a)" by blast
  qed
  then show "\<forall>a\<in>set (drop (length (fst w)) (fst (trigger_keystrokes iter t buttons w))).
            \<exists>b'\<in>set buttons \<union> pressed_buttons (snd w).
              b' \<noteq> b \<and> key_mapping (snd w) b' = Some (key_of a)"
    by (simp add: out(1))
  have "last_press_time (snd (trigger_keystrokes ?it t buttons w)) b = last_press_time (snd w) b"
  proof -
    let ?cur = "set buttons"
    let ?w1 = "still_pressed_loop ?it t ?cur w"
    let ?w2 = "newly_pressed_loop ?it t ?cur ?w1"
    have "last_press_time (snd ?w1) b = last_press_time (snd w) b"
      unfolding still_pressed_loop_def
      by (rule fold_time_other [OF repeat_press_time_other]) simp_all
    moreover have "last_press_time (snd ?w2) b = last_press_time (snd ?w1) b"
      unfolding newly_pressed_loop_def
      by (rule fold_time_other [OF new_press_time_other]) simp_all
    ultimately show ?thesis
      by (simp add: trigger_keystrokes_def Let_def released_loop_frame)
  qed
  then show "last_press_time (snd (trigger_keystrokes iter t buttons w)) b
      = last_press_time (snd w) b"
    by (simp add: skip)
  show "pressed_buttons (snd (trigger_keystrokes iter t buttons w)) = set buttons"
    by (simp add: trigger_keystrokes_def Let_def)
qed

theorem unmapped_button_ignored_witness:
  "key_mapping (snd ([], ab_controller)) ''Y_BTN'' = None
   \<and> iterates_update (example_iter) (set [''A_BTN'', ''Y_BTN''])
        (pressed_buttons (snd ([], ab_controller)))
   \<and> trigger_keystrokes (\<lambda>S. removeAll ''Y_BTN'' (example_iter S)) 2
        [''A_BTN'', ''Y_BTN''] ([], ab_controller)
      = trigger_keystrokes (example_iter) 2 [''A_BTN'', ''Y_BTN''] ([], ab_controller)
   \<and> fst (trigger_keystrokes (example_iter) 2 [''A_BTN'', ''Y_BTN'']
        ([], ab_controller)) = [Press ''a'', Release ''b'']
   \<and> last_press_time (snd (trigger_keystrokes (example_iter) 2
        [''A_BTN'', ''Y_BTN''] ([], ab_controller))) ''Y_BTN'' = None
   \<and> pressed_buttons (snd (trigger_keystrokes (example_iter) 2
        [''A_BTN'', ''Y_BTN''] ([], ab_controller))) = {''A_BTN'', ''Y_BTN''}"
proof -
  have un: "key_mapping (snd ([], ab_controller)) ''Y_BTN'' = None"
    by (simp add: ab_controller_def)
  have it: "iterates_update (example_iter) (set [''A_BTN'', ''Y_BTN''])
        (pressed_buttons (snd ([]::key_action list, ab_controller)))"
    by code_simp
  have out: "fst (trigger_keystrokes (example_iter) 2 [''A_BTN'', ''Y_BTN'']
        ([], ab_controller)) = [Press ''a'', Release ''b'']"
    by code_simp
  from unmapped_button_ignored [OF un it, of 2] un it out show ?thesis
    by (simp add: ab_controller_def)
qed

subsection \<open>The analog loop of the handler\<close>

lemma parse_analog_message_next_index:
  "parse_analog_message d = Inr (Some a) \<Longrightarrow> next_index a = length d"
  by (auto simp: parse_analog_message_def split: if_splits sum.splits)

lemma analog_loop_end: "length data \<le> start_index \<Longrightarrow> analog_loop data start_index = Some (Inr ())"
  by (subst analog_loop.simps) simp

lemma analog_loop_raises:
  "start_index < length data \<Longrightarrow> parse_analog_message (drop start_index data) = Inl e
     \<Longrightarrow> analog_loop data start_index = Some (Inl e)"
  by (subst analog_loop.simps) simp

lemma analog_loop_break:
  "start_index < length data \<Longrightarrow> parse_analog_message (drop start_index data) = Inr None
     \<Longrightarrow> analog_loop data start_index = Some (Inr ())"
  by (subst analog_loop.simps) simp

lemma analog_loop_next:
  "start_index < length data \<Longrightarrow> parse_analog_message (drop start_index data) = Inr (Some a)
     \<Longrightarrow> analog_loop data start_index = analog_loop data (length data - start_index)"
  by (subst analog_loop.simps) (simp add: parse_analog_message_next_index)

lemma analog_loop_returns:
  assumes "\<not> ((\<exists>a. parse_analog_message (drop 7 data) = Inr (Some a))
      \<and> (\<exists>a. parse_analog_message (drop (length data - 7) data) = Inr (Some a)))"
  shows "\<exists>r. analog_loop data 7 = Some r"
proof (cases "7 < length data")
  case False
  then show ?thesis by (simp add: analog_loop_end)
next
  case less: True
  show ?thesis
  proof (cases "parse_analog_message (drop 7 data)")
    case (Inl e)
    with less show ?thesis by (simp add: analog_loop_raises)
  next
    case (Inr r)
    show ?thesis
    proof (cases r)
      case None
      with Inr less show ?thesis by (simp add: analog_loop_break)
    next
      case (Some a)
      with Inr less have next7: "analog_loop data 7 = analog_loop data (length data - 7)"
        by (simp add: analog_loop_next)
      from less have less': "length data - 7 < length data" by simp
      from Some Inr assms
      have no: "\<not> (\<exists>a. parse_analog_message (drop (length data - 7) data) = Inr (Some a))"
        by simp
      show ?thesis
      proof (cases "parse_analog_message (drop (length data - 7) data)")
        case (Inl e)
        with less' next7 show ?thesis by (simp add: analog_loop_raises)
      next
        case Inr2: (Inr r')
        with no have "r' = None" by (cases r') simp_all
        with Inr2 less' next7 show ?thesis by (simp add: analog_loop_break)
      qed
    qed
  qed
qed

lemma analog_loop_diverges:
  assumes p7: "parse_analog_message (drop 7 data) = Inr (Some a)"
    and pn: "parse_analog_message (drop (length data - 7) data) = Inr (Some a')"
    and less: "7 < length data"
  shows "analog_loop data 7 = None"
proof (cases "analog_loop data 7")
  case (Some r)
  have n7: "next_index a = length data - 7" and nn: "next_index a' = 7"
    using parse_analog_message_next_index [OF p7] parse_analog_message_next_index [OF pn] less
    by simp_all
  have "\<not> (data = data \<and> ((7::nat) = 7 \<or> (7::nat) = length data - 7))"
  proof (rule analog_loop.raw_induct
      [where P = "\<lambda>d i r. \<not> (d = data \<and> (i = 7 \<or> i = length data - 7))", OF _ Some])
    fix f d start_index r
    assume IH: "\<And>d' i r. f d' i = Some r \<Longrightarrow> \<not> (d' = data \<and> (i = 7 \<or> i = length data - 7))"
      and step: "(if start_index < length d then
          (case parse_analog_message (drop start_index d) of
             Inl e \<Rightarrow> Some (Inl e)
           | Inr None \<Rightarrow> Some (Inr ())
           | Inr (Some analog_data) \<Rightarrow> f d (next_index analog_data))
        else Some (Inr ())) = Some r"
    show "\<not> (d = data \<and> (start_index = 7 \<or> start_index = length data - 7))"
    proof
      assume "d = data \<and> (start_index = 7 \<or> start_index = length data - 7)"
      then have d: "d = data" and c: "start_index = 7 \<or> start_index = length data - 7"
        by simp_all
      from c show False
      proof
        assume "start_index = 7"
        with step d less have "f data (length data - 7) = Some r"
          by (simp add: p7 n7)
        with IH show False by blast
      next
        from less have less': "length data - 7 < length data" by simp
        assume "start_index = length data - 7"
        with step d less' have "f data 7 = Some r"
          by (simp add: pn nn)
        with IH show False by blast
      qed
    qed
  qed
  then show ?thesis by simp
qed simp

lemma read_varint_unterminated:
  "(read_varint buffer offset val shift = Inl IndexError)
   = (\<forall>i. offset \<le> i \<and> i < length buffer \<longrightarrow> uint (buffer ! i) AND 0x80 \<noteq> 0)"
proof (induction buffer offset val shift rule: read_varint.induct)
  case (1 buffer offset val shift)
  show ?case
  proof (cases "offset < length buffer")
    case False
    then show ?thesis by (subst read_varint.simps) simp
  next
    case less: True
    show ?thesis
    proof (cases "uint (buffer ! offset) AND 0x80 = 0")
      case True
      with less have "read_varint buffer offset val shift \<noteq> Inl IndexError"
        by (subst read_varint.simps) (simp add: Let_def)
      with less True show ?thesis by auto
    next
      case False
      with less have "read_varint buffer offset val shift
          = read_varint buffer (offset + 1)
              (val OR push_bit shift (uint (buffer ! offset) AND 0x7f)) (shift + 7)"
        by (subst read_varint.simps) (simp add: Let_def)
      moreover have "(\<forall>i. offset \<le> i \<and> i < length buffer \<longrightarrow> uint (buffer ! i) AND 0x80 \<noteq> 0)
          = (\<forall>i. offset + 1 \<le> i \<and> i < length buffer \<longrightarrow> uint (buffer ! i) AND 0x80 \<noteq> 0)"
        using False by (metis Suc_eq_plus1 Suc_leI le_neq_implies_less add_leD1 le_add1 order_trans)
      ultimately show ?thesis
        using "1.IH" [OF less refl refl False] by simp
    qed
  qed
qed

lemma skip_varint_unterminated:
  "(\<forall>i. offset \<le> i \<and> i < length buffer \<longrightarrow> uint (buffer ! i) AND 0x80 \<noteq> 0)
   \<Longrightarrow> skip_varint buffer offset = Inl IndexError"
proof (induction buffer offset rule: skip_varint.induct)
  case (1 buffer offset)
  show ?case
  proof (cases "offset < length buffer")
    case False
    then show ?thesis by (subst skip_varint.simps) simp
  next
    case True
    with "1.prems" have high: "uint (buffer ! offset) AND 0x80 \<noteq> 0" by simp
    from "1.prems" have "\<forall>i. offset + 1 \<le> i \<and> i < length buffer
        \<longrightarrow> uint (buffer ! i) AND 0x80 \<noteq> 0"
      by simp
    with "1.IH" [OF True high] have "skip_varint buffer (offset + 1) = Inl IndexError" .
    with True high show ?thesis by (subst skip_varint.simps) simp
  qed
qed

lemma parse_key_press_unterminated:
  assumes less: "offset < length buffer"
    and varint: "uint (buffer ! offset) AND 0x7 = 0"
    and high: "\<forall>i. offset + 1 \<le> i \<and> i < length buffer \<longrightarrow> uint (buffer ! i) AND 0x80 \<noteq> 0"
  shows "parse_key_press_loop buffer offset loc aval = Inl IndexError"
proof -
  from high have r: "read_varint buffer (Suc offset) 0 0 = Inl IndexError"
    by (simp add: read_varint_unterminated)
  from high have s: "skip_varint buffer (Suc offset) = Inl IndexError"
    using skip_varint_unterminated [of "offset + 1" buffer] by simp
  show ?thesis
    by (subst parse_key_press_loop.simps) (simp add: less varint r s)
qed

lemma analog_varint_unterminated:
  assumes len: "9 < length data"
    and tag: "data ! 7 = 0x1a"
    and size: "0 < unat (data ! 8)"
    and varint: "uint (data ! 9) AND 0x7 = 0"
    and high: "\<forall>i. 9 < i \<and> i < length data \<longrightarrow> uint (data ! i) AND 0x80 \<noteq> 0"
  shows "parse_analog_message (drop 7 data) = Inl IndexError"
proof -
  let ?m = "take (unat (data ! 8)) (drop 9 data)"
  from len size have m: "0 < length ?m" by simp
  from len size have m0: "?m ! 0 = data ! 9" by simp
  have mh: "\<forall>i. 0 + 1 \<le> i \<and> i < length ?m \<longrightarrow> uint (?m ! i) AND 0x80 \<noteq> 0"
  proof (intro allI impI)
    fix i assume i: "0 + 1 \<le> i \<and> i < length ?m"
    with len have "?m ! i = data ! (9 + i)" by simp
    moreover from i have "9 < 9 + i" "9 + i < length data" by auto
    ultimately show "uint (?m ! i) AND 0x80 \<noteq> 0" using high by simp
  qed
  have "parse_key_press ?m = Inl IndexError"
    unfolding parse_key_press_def
    by (rule parse_key_press_unterminated [OF m _ mh]) (simp add: m0 varint)
  moreover from len have "0 < length (drop 7 data)" "0 + 1 < length (drop 7 data)"
    "drop 7 data ! 0 = data ! 7" "drop 7 data ! (0 + 1) = data ! 8"
    "drop (0 + 1 + 1) (drop 7 data) = drop 9 data"
    by (simp_all add: add.commute)
  ultimately have "parse_key_group (drop 7 data) = Inl IndexError"
    unfolding parse_key_group_def
    by (subst parse_key_group_loop.simps) (simp add: tag)
  moreover from len tag have "drop 7 data \<noteq> []" "drop 7 data ! 0 = 0x1a" by simp_all
  ultimately show ?thesis
    by (simp add: parse_analog_message_def)
qed

subsection \<open>A frame with no button pressed\<close>

text \<open>
  Claim C1 says that a ButtonStatus frame whose pressed set is empty releases the key of
  every button pressed before and empties the pressed set. The handler calls
  \<^verbatim>\<open>trigger_keystrokes\<close> under \<^verbatim>\<open>if pressed_buttons:\<close> only, so for such a frame it
  does nothing. At the frame with every mask bit set, with \<^verbatim>\<open>A_BTN\<close> and \<^verbatim>\<open>B_BTN\<close>
  pressed before: no button is decoded as pressed; the handler emits no action and
  leaves the controller as it was, both buttons still pressed and both keys still held;
  \<^verbatim>\<open>trigger_keystrokes\<close> itself, called with the empty list, would release both keys.
\<close>

theorem released_frame_emits_nothing:
  "parse_button_state (button_map_of all_released_frame) = []
   \<and> notification_handler example_iter 5 all_released_frame ([], ab_held) = Some ([], ab_held)
   \<and> fst (trigger_keystrokes example_iter 5 [] ([], ab_held)) = [Release ''a'', Release ''b'']"
proof (intro conjI)
  show p: "parse_button_state (button_map_of all_released_frame) = []"
    by (simp add: all_released_frame_def button_map_of_def parse_button_state_def BUTTON_MASKS_def)
  have "analog_loop all_released_frame 7 = Some (Inr ())"
    by (rule analog_loop_end) (simp add: all_released_frame_def)
  moreover have "all_released_frame \<noteq> []" "all_released_frame ! 0 = 0x23"
    "\<not> length all_released_frame < 6"
    by (simp_all add: all_released_frame_def)
  ultimately show "notification_handler example_iter 5 all_released_frame ([], ab_held)
      = Some ([], ab_held)"
    by (simp add: notification_handler_def notification_body_def p)
  show "fst (trigger_keystrokes example_iter 5 [] ([], ab_held)) = [Release ''a'', Release ''b'']"
    by code_simp
qed

subsection \<open>Idle frames\<close>

text \<open>
  Claim C2 as stated fails: the handler clears \<^verbatim>\<open>pressed_buttons\<close> under
  \<^verbatim>\<open>if self.active_keys:\<close> only. With a mapping that has no entry for \<^verbatim>\<open>Y_BTN\<close>, a
  frame with \<^verbatim>\<open>Y_BTN\<close> pressed and then an Idle frame leave \<^verbatim>\<open>Y_BTN\<close> in the pressed
  set.
\<close>

theorem idle_keeps_pressed_buttons_counterexample:
  "notifications [(example_iter, 1, y_frame), (example_iter, 2, idle_frame)]
     ([], init [''A_BTN'' \<mapsto> ''a''])
   = Some ([], (init [''A_BTN'' \<mapsto> ''a''])\<lparr>pressed_buttons := {''Y_BTN''}\<rparr>)"
proof -
  let ?w = "([], init [''A_BTN'' \<mapsto> ''a'']) :: real world"
  have p: "parse_button_state (button_map_of y_frame) = [''Y_BTN'']"
    by (simp add: y_frame_def button_map_of_def parse_button_state_def BUTTON_MASKS_def)
  have a: "analog_loop y_frame 7 = Some (Inr ())"
    by (rule analog_loop_end) (simp add: y_frame_def)
  have f: "y_frame \<noteq> []" "y_frame ! 0 = 0x23" "\<not> length y_frame < 6"
    by (simp_all add: y_frame_def)
  have t: "trigger_keystrokes example_iter 1 [''Y_BTN''] ?w
      = ([], (init [''A_BTN'' \<mapsto> ''a''])\<lparr>pressed_buttons := {''Y_BTN''}\<rparr>)"
    by (simp add: trigger_keystrokes_def still_pressed_loop_def newly_pressed_loop_def
        released_loop_def init_def example_iter_def in_order_of_def BUTTON_MASKS_def
        new_press_def)
  have 1: "notification_handler example_iter 1 y_frame ?w
      = Some ([], (init [''A_BTN'' \<mapsto> ''a''])\<lparr>pressed_buttons := {''Y_BTN''}\<rparr>)"
    by (simp add: notification_handler_def notification_body_def p a f t)
  have 2: "notification_handler example_iter 2 idle_frame
        ([], (init [''A_BTN'' \<mapsto> ''a''])\<lparr>pressed_buttons := {''Y_BTN''}\<rparr>)
      = Some ([], (init [''A_BTN'' \<mapsto> ''a''])\<lparr>pressed_buttons := {''Y_BTN''}\<rparr>)"
    by (simp add: notification_handler_def notification_body_def idle_frame_def init_def)
  show ?thesis by (simp add: 1 2)
qed

text \<open>
  Claim C2, amended: on an Idle frame, for every prior state, a \<open>Release\<close> is emitted
  for every key in the active keys, once, and for no other key, and afterwards the
  active keys are empty; the pressed buttons are emptied when a key was active and are
  left as they were when none was; when no key is active, no action is emitted and the
  handler changes nothing.
\<close>

theorem idle_releases_active_keys:
  assumes "data \<noteq> []" and "data ! 0 = 0x15" and "iterates iter (active_keys (snd w))"
  shows "notification_handler iter t data w
         = Some (fst w @ map Release (iter (active_keys (snd w))),
                 (snd w)\<lparr>active_keys := {},
                          pressed_buttons :=
                            (if active_keys (snd w) = {} then pressed_buttons (snd w) else {})\<rparr>)
       \<and> set (map Release (iter (active_keys (snd w)))) = Release ` active_keys (snd w)
       \<and> distinct (map Release (iter (active_keys (snd w))))
       \<and> (active_keys (snd w) = {} \<longrightarrow> notification_handler iter t data w = Some w)"
proof -
  from assms(3) have s: "set (iter (active_keys (snd w))) = active_keys (snd w)"
    and d: "distinct (iter (active_keys (snd w)))"
    by (simp_all add: iterates_def)
  have e: "active_keys (snd w) = {} \<Longrightarrow> iter (active_keys (snd w)) = []"
    using s by (metis set_empty)
  have u: "active_keys (snd w) = {} \<Longrightarrow> (fst w, (snd w)\<lparr>active_keys := {}\<rparr>) = w"
    by (cases w) simp
  have h: "notification_handler iter t data w
      = (if active_keys (snd w) \<noteq> {}
         then Some (fst w @ map Release (iter (active_keys (snd w))),
                    (snd w)\<lparr>active_keys := {}, pressed_buttons := {}\<rparr>)
         else Some w)"
    using assms(1,2) by (simp add: notification_handler_def notification_body_def)
  show ?thesis
  proof (cases "active_keys (snd w) = {}")
    case True
    with h e u show ?thesis by simp
  next
    case False
    with h s d show ?thesis by (simp add: distinct_map inj_on_def)
  qed
qed

theorem idle_releases_active_keys_witness:
  "idle_frame \<noteq> [] \<and> idle_frame ! 0 = 0x15
   \<and> iterates example_iter (active_keys (snd ([], w_space_held)))
   \<and> notification_handler example_iter 9 idle_frame ([], w_space_held)
      = Some ([Release ''w'', Release ''space''],
              w_space_held\<lparr>active_keys := {}, pressed_buttons := {}\<rparr>)"
proof -
  have f: "idle_frame \<noteq> []" "idle_frame ! 0 = 0x15"
    by (simp_all add: idle_frame_def)
  have it: "iterates example_iter (active_keys (snd ([]::key_action list, w_space_held)))"
    by code_simp
  have o: "example_iter (active_keys w_space_held) = [''w'', ''space'']"
    by code_simp
  have a: "active_keys w_space_held \<noteq> {}"
    by (simp add: w_space_held_def)
  from idle_releases_active_keys [OF f it, of 9] f it o a show ?thesis
    by simp
qed

subsection \<open>Failures of the decoder\<close>

text \<open>
  Claim C3 as stated fails: \<^verbatim>\<open>parse_key_press\<close> raises \<^verbatim>\<open>IndexError\<close> on a varint
  that does not end within the buffer, and \<^verbatim>\<open>parse_key_group\<close> and
  \<^verbatim>\<open>parse_analog_message\<close> let the exception through.
\<close>

theorem decoder_raises_counterexample:
  "parse_key_press [0x08, 0x80] = Inl IndexError
   \<and> parse_key_group [0x1a, 0x02, 0x08, 0x80] = Inl IndexError
   \<and> parse_analog_message [0x1a, 0x02, 0x08, 0x80] = Inl IndexError"
proof -
  have "read_varint [0x08, 0x80] 1 0 0 = Inl IndexError"
    by (simp add: read_varint.simps Let_def)
  then have 1: "parse_key_press [0x08, 0x80] = Inl IndexError"
    by (simp add: parse_key_press_def parse_key_press_loop.simps)
  then have 2: "parse_key_group [0x1a, 0x02, 0x08, 0x80] = Inl IndexError"
    by (simp add: parse_key_group_def parse_key_group_loop.simps)
  then have "parse_analog_message [0x1a, 0x02, 0x08, 0x80] = Inl IndexError"
    by (simp add: parse_analog_message_def)
  with 1 2 show ?thesis by simp
qed

text \<open>
  Claim C3, amended: the three parse functions end on every input (they are total
  functions here, by their termination proofs), with a result or with an
  \<^verbatim>\<open>IndexError\<close>; the \<^verbatim>\<open>IndexError\<close> of a parse function, of \<^verbatim>\<open>data[0]\<close> on an empty
  payload and of \<^verbatim>\<open>data[5]\<close> on a short ButtonStatus frame is caught in
  \<^verbatim>\<open>notification_handler\<close>. So the handler returns with nothing emitted and nothing
  changed for an empty payload, for a ButtonStatus frame of fewer than 6 bytes and for a
  frame that is neither ButtonStatus nor Idle; and for a ButtonStatus frame of at least 6
  bytes it returns with what was dispatched for the buttons, whatever the analog
  parsing raises, unless both the slice from index 7 and the slice from index
  \<open>length data - 7\<close> parse as analog messages (of that case nothing is said here).
\<close>

theorem decoding_failures_caught:
  "(data = [] \<or> (data ! 0 = 0x23 \<and> length data < 6)
      \<or> (data \<noteq> [] \<and> data ! 0 \<noteq> 0x23 \<and> data ! 0 \<noteq> 0x15)
     \<longrightarrow> notification_handler iter t data w = Some w)
   \<and> (data ! 0 = 0x23 \<and> 6 \<le> length data
      \<and> \<not> ((\<exists>a. parse_analog_message (drop 7 data) = Inr (Some a))
          \<and> (\<exists>a. parse_analog_message (drop (length data - 7) data) = Inr (Some a)))
     \<longrightarrow> notification_handler iter t data w = Some (dispatched iter t data w))"
proof (intro conjI impI)
  assume "data = [] \<or> (data ! 0 = 0x23 \<and> length data < 6)
      \<or> (data \<noteq> [] \<and> data ! 0 \<noteq> 0x23 \<and> data ! 0 \<noteq> 0x15)"
  then show "notification_handler iter t data w = Some w"
    by (cases w) (elim disjE conjE; simp add: notification_handler_def notification_body_def)
next
  assume a: "data ! 0 = 0x23 \<and> 6 \<le> length data
      \<and> \<not> ((\<exists>a. parse_analog_message (drop 7 data) = Inr (Some a))
          \<and> (\<exists>a. parse_analog_message (drop (length data - 7) data) = Inr (Some a)))"
  then obtain r where "analog_loop data 7 = Some r"
    using analog_loop_returns by blast
  moreover from a have "data \<noteq> []" "\<not> length data < 6" by auto
  ultimately show "notification_handler iter t data w = Some (dispatched iter t data w)"
    using a by (simp add: notification_handler_def notification_body_def dispatched_def Let_def)
qed

theorem decoding_failures_caught_witness:
  "truncated_varint_frame ! 0 = 0x23 \<and> 6 \<le> length truncated_varint_frame
   \<and> parse_analog_message (drop 7 truncated_varint_frame) = Inl IndexError
   \<and> notification_handler example_iter 1 truncated_varint_frame ([], init DEFAULT_KEY_MAPPING)
      = Some (dispatched example_iter 1 truncated_varint_frame ([], init DEFAULT_KEY_MAPPING))
   \<and> notification_handler example_iter 1 [] ([], init DEFAULT_KEY_MAPPING)
      = Some ([], init DEFAULT_KEY_MAPPING)"
proof -
  let ?w = "([], init DEFAULT_KEY_MAPPING) :: real world"
  have f: "truncated_varint_frame ! 0 = 0x23" "6 \<le> length truncated_varint_frame"
    by (simp_all add: truncated_varint_frame_def)
  have p: "parse_analog_message (drop 7 truncated_varint_frame) = Inl IndexError"
    by code_simp
  from decoding_failures_caught [of truncated_varint_frame example_iter 1 ?w] f p
  have 1: "notification_handler example_iter 1 truncated_varint_frame ?w
      = Some (dispatched example_iter 1 truncated_varint_frame ?w)"
    by simp
  from decoding_failures_caught [of "[]" example_iter 1 ?w]
  have 2: "notification_handler example_iter 1 [] ?w = Some ?w"
    by simp
  from f p 1 2 show ?thesis by simp
qed

subsection \<open>A varint that does not end\<close>

text \<open>
  Claim C7 says that, when a varint inside an analog sub-message does not end within
  the buffer, the failure is contained: the keystrokes already dispatched for the frame
  stay in effect, and the notifications that follow are processed. At the frame below it
  is not: the slice from index 7 is \<^verbatim>\<open>1A 00 08 80\<close>, whose varint \<^verbatim>\<open>80\<close> is the last byte
  of the frame (reading it as a varint raises \<^verbatim>\<open>IndexError\<close>); \<^verbatim>\<open>parse_key_group\<close> skips
  it with its guarded loop and the slice parses, with \<^verbatim>\<open>next_index\<close> 4; the slice from
  index 4 parses too, with \<^verbatim>\<open>next_index\<close> 7; so the analog loop goes from 7 to 4 and
  back for ever. \<^verbatim>\<open>POWERUP_R_BTN\<close> is decoded as pressed and dispatched, but the handler
  never returns, and neither does the handling of any notification after this one.
\<close>

theorem unterminated_varint_frame_never_returns:
  "parse_button_state (button_map_of group_varint_frame) = [''POWERUP_R_BTN'']
   \<and> fst (dispatched example_iter 1 group_varint_frame ([], init DEFAULT_KEY_MAPPING))
      = [Press ''p'']
   \<and> read_varint (drop 7 group_varint_frame) 3 0 0 = Inl IndexError
   \<and> skip_varint_guarded (drop 7 group_varint_frame) 3 = 4
   \<and> parse_analog_message (drop 7 group_varint_frame)
      = Inr (Some \<lparr>left = Some 0, right = Some 0, next_index = 4\<rparr>)
   \<and> parse_analog_message (drop 4 group_varint_frame)
      = Inr (Some \<lparr>left = Some 0, right = Some 0, next_index = 7\<rparr>)
   \<and> analog_loop group_varint_frame 7 = None
   \<and> notification_handler example_iter 1 group_varint_frame ([], init DEFAULT_KEY_MAPPING)
      = None
   \<and> notifications [(example_iter, 1, group_varint_frame), (example_iter, 2, idle_frame)]
        ([], init DEFAULT_KEY_MAPPING)
      = None"
proof -
  let ?w = "([], init DEFAULT_KEY_MAPPING) :: real world"
  have b: "parse_button_state (button_map_of group_varint_frame) = [''POWERUP_R_BTN'']"
    by code_simp
  have d: "fst (dispatched example_iter 1 group_varint_frame ?w) = [Press ''p'']"
    by code_simp
  have r: "read_varint (drop 7 group_varint_frame) 3 0 0 = Inl IndexError"
    by code_simp
  have k: "skip_varint_guarded (drop 7 group_varint_frame) 3 = 4"
    by code_simp
  have p7: "parse_analog_message (drop 7 group_varint_frame)
      = Inr (Some \<lparr>left = Some 0, right = Some 0, next_index = 4\<rparr>)"
    by code_simp
  have l: "length group_varint_frame = 11"
    by (simp add: group_varint_frame_def)
  have p4: "parse_analog_message (drop 4 group_varint_frame)
      = Inr (Some \<lparr>left = Some 0, right = Some 0, next_index = 7\<rparr>)"
    by code_simp
  have loop: "analog_loop group_varint_frame 7 = None"
    by (rule analog_loop_diverges [OF p7]) (simp_all add: l p4)
  have f: "group_varint_frame \<noteq> []" "group_varint_frame ! 0 = 0x23"
    "\<not> length group_varint_frame < 6"
    by (simp_all add: group_varint_frame_def)
  have h: "notification_handler example_iter 1 group_varint_frame ?w = None"
    by (simp add: notification_handler_def notification_body_def f loop Let_def)
  then have n: "notifications
      [(example_iter, 1, group_varint_frame), (example_iter, 2, idle_frame)] ?w = None"
    by simp
  from b d r k p7 p4 loop h n show ?thesis by simp
qed

subsection \<open>Failures of the analog parsing that are caught\<close>

text \<open>
  When the slice from index 7 of a ButtonStatus frame makes \<^verbatim>\<open>parse_analog_message\<close>
  raise, as a varint that does not end within its KeyPress does (lemmas
  \<open>read_varint_unterminated\<close>, \<open>parse_key_press_unterminated\<close> and
  \<open>analog_varint_unterminated\<close>), the handler returns with what was dispatched for the
  buttons of the frame, and the notifications that follow are handled from that state.
\<close>

theorem analog_failure_contained:
  assumes "data ! 0 = 0x23" and "7 < length data"
    and "parse_analog_message (drop 7 data) = Inl e"
  shows "notification_handler iter t data w = Some (dispatched iter t data w)
       \<and> notifications ((iter, t, data) # rest) w
           = notifications rest (dispatched iter t data w)"
proof -
  from assms(2) have "data \<noteq> []" "\<not> length data < 6" by auto
  moreover from assms(2,3) have "analog_loop data 7 = Some (Inl e)"
    by (rule analog_loop_raises)
  ultimately have "notification_handler iter t data w = Some (dispatched iter t data w)"
    using assms(1)
    by (simp add: notification_handler_def notification_body_def dispatched_def Let_def)
  then show ?thesis by simp
qed

theorem analog_failure_contained_witness:
  "truncated_varint_frame ! 0 = 0x23 \<and> 7 < length truncated_varint_frame
   \<and> parse_analog_message (drop 7 truncated_varint_frame) = Inl IndexError
   \<and> notification_handler example_iter 1 truncated_varint_frame ([], init DEFAULT_KEY_MAPPING)
      = Some (dispatched example_iter 1 truncated_varint_frame ([], init DEFAULT_KEY_MAPPING))
   \<and> fst (dispatched example_iter 1 truncated_varint_frame ([], init DEFAULT_KEY_MAPPING))
      = [Press ''a'']
   \<and> map_option fst (notifications
        [(example_iter, 1, truncated_varint_frame), (example_iter, 2, idle_frame)]
        ([], init DEFAULT_KEY_MAPPING))
      = Some [Press ''a'', Release ''a'']"
proof -
  have f: "truncated_varint_frame ! 0 = 0x23" "7 < length truncated_varint_frame"
    by (simp_all add: truncated_varint_frame_def)
  have h: "\<forall>i. 9 < i \<and> i < length truncated_varint_frame
      \<longrightarrow> uint (truncated_varint_frame ! i) AND 0x80 \<noteq> 0"
  proof (intro allI impI)
    fix i assume "9 < i \<and> i < length truncated_varint_frame"
    then have "i = 10" by (simp add: truncated_varint_frame_def)
    then show "uint (truncated_varint_frame ! i) AND 0x80 \<noteq> 0"
      by (simp add: truncated_varint_frame_def)
  qed
  have a: "parse_analog_message (drop 7 truncated_varint_frame) = Inl IndexError"
    by (rule analog_varint_unterminated [OF _ _ _ _ h])
      (simp_all add: truncated_varint_frame_def)
  have d: "fst (dispatched example_iter 1 truncated_varint_frame ([], init DEFAULT_KEY_MAPPING))
      = [Press ''a'']"
    by code_simp
  have n: "map_option fst (notifications
        [(example_iter, 1, truncated_varint_frame), (example_iter, 2, idle_frame)]
        ([], init DEFAULT_KEY_MAPPING))
      = Some [Press ''a'', Release ''a'']"
    by code_simp
  from analog_failure_contained [OF f a, of example_iter 1 "([], init DEFAULT_KEY_MAPPING)"]
  have "notification_handler example_iter 1 truncated_varint_frame ([], init DEFAULT_KEY_MAPPING)
      = Some (dispatched example_iter 1 truncated_varint_frame ([], init DEFAULT_KEY_MAPPING))"
    by (rule conjunct1)
  with f a d n show ?thesis by simp
qed

subsection \<open>The next index of an analog message\<close>

text \<open>
  Claim C10 says that \<^verbatim>\<open>next_index\<close> is the length of the slice parsed (it is: lemma
  \<open>parse_analog_message_next_index\<close>) and that the loop therefore parses at most one
  analog sub-message per frame. The handler assigns that length, counted from the start
  of the slice, to \<^verbatim>\<open>start_index\<close>, an index into the whole frame: after the slice from
  index 7 the loop goes on at index \<open>length data - 7\<close>, and from there back to index 7.
  At the frame of 31 bytes below, the slices from 7 and from 24 both parse, and the loop
  and the handler never return.
\<close>

theorem analog_loop_never_ends:
  "parse_analog_message (drop 7 looping_frame)
     = Inr (Some \<lparr>left = Some 0, right = Some 0, next_index = 24\<rparr>)
   \<and> parse_analog_message (drop 24 looping_frame)
     = Inr (Some \<lparr>left = Some 0, right = Some 0, next_index = 7\<rparr>)
   \<and> analog_loop looping_frame 7 = None
   \<and> notification_handler example_iter 1 looping_frame ([], init DEFAULT_KEY_MAPPING) = None"
proof -
  have p7: "parse_analog_message (drop 7 looping_frame)
      = Inr (Some \<lparr>left = Some 0, right = Some 0, next_index = 24\<rparr>)"
    by code_simp
  have p24: "parse_analog_message (drop 24 looping_frame)
      = Inr (Some \<lparr>left = Some 0, right = Some 0, next_index = 7\<rparr>)"
    by code_simp
  have l: "length looping_frame = 31"
    by (simp add: looping_frame_def)
  have loop: "analog_loop looping_frame 7 = None"
  proof (cases "analog_loop looping_frame 7")
    case (Some r)
    have "\<not> (looping_frame = looping_frame \<and> ((7::nat) = 7 \<or> (7::nat) = 24))"
    proof (rule analog_loop.raw_induct
        [where P = "\<lambda>d i r. \<not> (d = looping_frame \<and> (i = 7 \<or> i = 24))", OF _ Some])
      fix f data start_index r
      assume IH: "\<And>d i r. f d i = Some r \<Longrightarrow> \<not> (d = looping_frame \<and> (i = 7 \<or> i = 24))"
        and step: "(if start_index < length data then
            (case parse_analog_message (drop start_index data) of
               Inl e \<Rightarrow> Some (Inl e)
             | Inr None \<Rightarrow> Some (Inr ())
             | Inr (Some analog_data) \<Rightarrow> f data (next_index analog_data))
          else Some (Inr ())) = Some r"
      show "\<not> (data = looping_frame \<and> (start_index = 7 \<or> start_index = 24))"
      proof
        assume "data = looping_frame \<and> (start_index = 7 \<or> start_index = 24)"
        with step have "f looping_frame 24 = Some r \<or> f looping_frame 7 = Some r"
          by (auto simp: p7 p24 l)
        with IH show False by blast
      qed
    qed
    then show ?thesis by simp
  qed simp
  have f: "looping_frame \<noteq> []" "looping_frame ! 0 = 0x23" "\<not> length looping_frame < 6"
    by (simp_all add: looping_frame_def)
  have "notification_handler example_iter 1 looping_frame ([], init DEFAULT_KEY_MAPPING) = None"
    by (simp add: notification_handler_def notification_body_def f loop Let_def)
  with p7 p24 loop show ?thesis by simp
qed

text \<open>
  The analog loop of a frame runs forever exactly when the slices from index 7 and from
  index \<open>length data - 7\<close> both parse as analog messages.
\<close>

theorem analog_loop_ends_iff:
  "(analog_loop data 7 = None)
   = (7 < length data
      \<and> (\<exists>a. parse_analog_message (drop 7 data) = Inr (Some a))
      \<and> (\<exists>a. parse_analog_message (drop (length data - 7) data) = Inr (Some a)))"
proof
  assume n: "analog_loop data 7 = None"
  then have "7 < length data"
    by (metis analog_loop_end not_le_imp_less option.distinct(1))
  moreover from n analog_loop_returns [of data]
  have "(\<exists>a. parse_analog_message (drop 7 data) = Inr (Some a))
      \<and> (\<exists>a. parse_analog_message (drop (length data - 7) data) = Inr (Some a))"
    by auto
  ultimately show "7 < length data
      \<and> (\<exists>a. parse_analog_message (drop 7 data) = Inr (Some a))
      \<and> (\<exists>a. parse_analog_message (drop (length data - 7) data) = Inr (Some a))"
    by simp
next
  assume "7 < length data
      \<and> (\<exists>a. parse_analog_message (drop 7 data) = Inr (Some a))
      \<and> (\<exists>a. parse_analog_message (drop (length data - 7) data) = Inr (Some a))"
  then show "analog_loop data 7 = None"
    using analog_loop_diverges by blast
qed

subsection \<open>Repeats\<close>



subsection \<open>Releases after presses\<close>

text \<open>
  Claim C6 as stated, for every key mapping, fails: when a newly pressed button and a
  released button share a key, the key is pressed in the second loop and released in
  the third.
\<close>

theorem release_after_press_counterexample:
  "fst (trigger_keystrokes example_iter 2 [''B_BTN''] ([], shared_key))
     = [Press ''a'', Release ''a'']
   \<and> release_after_press ''a''
        (fst (trigger_keystrokes example_iter 2 [''B_BTN''] ([], shared_key)))"
  by code_simp

text \<open>
  Claim C6, amended: for every update, every dispatcher state and every key mapping
  that gives no two buttons of the update (pressed before or pressed now) the same key,
  no \<open>Release k\<close> stands after a \<open>Press k\<close> of the same key in the action sequence that
  the update emits.
\<close>

theorem no_release_after_press:
  assumes it: "iterates_update iter (set buttons) (pressed_buttons (snd w))"
    and inj: "inj_on (key_mapping (snd w))
        ((set buttons \<union> pressed_buttons (snd w)) \<inter> dom (key_mapping (snd w)))"
  shows "\<not> release_after_press k
      (drop (length (fst w)) (fst (trigger_keystrokes iter t buttons w)))"
proof -
  let ?cur = "set buttons" and ?prev = "pressed_buttons (snd w)"
  let ?km = "key_mapping (snd w)"
  let ?w1 = "still_pressed_loop iter t ?cur w"
  let ?w2 = "newly_pressed_loop iter t ?cur ?w1"
  let ?w3 = "released_loop iter ?cur ?w2"
  from it have sets: "set (iter (?cur \<inter> ?prev)) = ?cur \<inter> ?prev"
    "set (iter (?cur - ?prev)) = ?cur - ?prev" "set (iter (?prev - ?cur)) = ?prev - ?cur"
    and dist: "distinct (iter (?cur \<inter> ?prev))" "distinct (iter (?cur - ?prev))"
    "distinct (iter (?prev - ?cur))"
    by (simp_all add: iterates_update_def iterates_def)
  have k1: "key_mapping (snd ?w1) = ?km" and k2: "key_mapping (snd ?w2) = ?km"
    by (simp_all add: still_pressed_loop_frame newly_pressed_loop_frame)
  have p1: "pressed_buttons (snd ?w1) = ?prev" and p2: "pressed_buttons (snd ?w2) = ?prev"
    by (simp_all add: still_pressed_loop_frame newly_pressed_loop_frame)
  have inj1: "inj_on ?km (set (iter (?cur \<inter> ?prev)) \<inter> dom ?km)"
    and inj2: "inj_on ?km (set (iter (?cur - ?prev)) \<inter> dom ?km)"
    and inj3: "inj_on ?km (set (iter (?prev - ?cur)) \<inter> dom ?km)"
    unfolding sets by (rule inj_on_subset [OF inj]; blast)+
  from fold_emits [where f = "repeat_press t" and bs = "iter (?cur \<inter> ?prev)" and w = w,
      OF repeat_press_emits repeat_press_frame(1)]
  obtain o1 where o1: "fst ?w1 = fst w @ o1"
    "\<forall>a\<in>set o1. \<exists>b\<in>?cur \<inter> ?prev. ?km b = Some (key_of a)"
    unfolding still_pressed_loop_def sets by blast
  from fold_emits [where f = "new_press t" and bs = "iter (?cur - ?prev)" and w = ?w1,
      OF new_press_emits new_press_frame(1)]
  obtain o2 where o2: "fst ?w2 = fst ?w1 @ o2"
    "\<forall>a\<in>set o2. \<exists>b\<in>?cur - ?prev. ?km b = Some (key_of a)"
    unfolding newly_pressed_loop_def sets k1 p1 by blast
  from fold_emits [where f = release_button and bs = "iter (?prev - ?cur)" and w = ?w2,
      OF release_button_emits release_button_frame(1)]
  obtain o3 where o3: "fst ?w3 = fst ?w2 @ o3"
    "\<forall>a\<in>set o3. \<exists>b\<in>?prev - ?cur. ?km b = Some (key_of a)"
    unfolding released_loop_def sets k2 p2 by blast
  have "\<not> release_after_press k (drop (length (fst w)) (fst ?w1))"
    unfolding still_pressed_loop_def
    by (rule fold_order [OF repeat_press_emits repeat_press_order repeat_press_frame(1)
          dist(1) inj1])
  then have r1: "\<not> release_after_press k o1" by (simp add: o1(1))
  have "\<not> release_after_press k (drop (length (fst ?w1)) (fst ?w2))"
    unfolding newly_pressed_loop_def p1
    by (rule fold_order [OF new_press_emits new_press_order new_press_frame(1) dist(2)])
      (simp add: k1 inj2)
  then have r2: "\<not> release_after_press k o2" by (simp add: o2(1))
  have "\<not> release_after_press k (drop (length (fst ?w2)) (fst ?w3))"
    unfolding released_loop_def p2
    by (rule fold_order [OF release_button_emits release_button_order release_button_frame(1)
          dist(3)])
      (simp add: k2 inj3)
  then have r3: "\<not> release_after_press k o3" by (simp add: o3(1))
  have same_button: "b = b'"
    if "b \<in> ?cur \<union> ?prev" "b' \<in> ?cur \<union> ?prev" "?km b = Some k" "?km b' = Some k" for b b'
    using inj that by (auto simp: inj_on_def dom_def)
  have c12: "\<not> (Press k \<in> set o1 \<and> Release k \<in> set o2)"
  proof
    assume c: "Press k \<in> set o1 \<and> Release k \<in> set o2"
    with o1(2) obtain b where b: "b \<in> ?cur \<inter> ?prev" "?km b = Some k" by force
    from c o2(2) obtain b' where b': "b' \<in> ?cur - ?prev" "?km b' = Some k" by force
    from same_button [of b b'] b b' have "b = b'" by blast
    with b(1) b'(1) show False by blast
  qed
  have c3: "\<not> (Press k \<in> set (o1 @ o2) \<and> Release k \<in> set o3)"
  proof
    assume c: "Press k \<in> set (o1 @ o2) \<and> Release k \<in> set o3"
    with o1(2) o2(2) obtain b where b: "b \<in> ?cur" "?km b = Some k" by force
    from c o3(2) obtain b' where b': "b' \<in> ?prev - ?cur" "?km b' = Some k" by force
    from same_button [of b b'] b b' have "b = b'" by blast
    with b(1) b'(1) show False by blast
  qed
  have "drop (length (fst w)) (fst (trigger_keystrokes iter t buttons w)) = (o1 @ o2) @ o3"
    by (simp add: trigger_keystrokes_def Let_def o1(1) o2(1) o3(1))
  with r1 r2 r3 c12 c3 show ?thesis
    by (simp only: release_after_press_append) blast
qed

theorem no_release_after_press_witness:
  "iterates_update example_iter (set [''A_BTN'']) (pressed_buttons (snd ([], ab_held)))
   \<and> inj_on (key_mapping (snd ([], ab_held)))
        ((set [''A_BTN''] \<union> pressed_buttons (snd ([], ab_held)))
          \<inter> dom (key_mapping (snd ([], ab_held))))
   \<and> fst (trigger_keystrokes example_iter 2 [''A_BTN''] ([], ab_held))
      = [Release ''a'', Press ''a'', Release ''b'']
   \<and> \<not> release_after_press ''a''
        (drop (length (fst ([], ab_held)))
          (fst (trigger_keystrokes example_iter 2 [''A_BTN''] ([], ab_held))))"
proof -
  have it: "iterates_update example_iter (set [''A_BTN''])
      (pressed_buttons (snd ([]::key_action list, ab_held)))"
    by code_simp
  have inj: "inj_on (key_mapping (snd ([]::key_action list, ab_held)))
      ((set [''A_BTN''] \<union> pressed_buttons (snd ([]::key_action list, ab_held)))
        \<inter> dom (key_mapping (snd ([]::key_action list, ab_held))))"
    by (simp add: ab_held_def)
  have out: "fst (trigger_keystrokes example_iter 2 [''A_BTN''] ([], ab_held))
      = [Release ''a'', Press ''a'', Release ''b'']"
    by code_simp
  from no_release_after_press [OF it inj, of "''a''" 2] it inj out show ?thesis
    by simp
qed

end
